theory Spec2Isabelle
  imports Main "HOL-Library.Word"
begin

section \<open>The handshake coordinator of internal/quic/tls.go\<close>

text \<open>
  The file \<^verbatim>\<open>internal/quic/tls.go\<close> holds five functions: \<^verbatim>\<open>Conn.startTLS\<close>,
  \<^verbatim>\<open>Conn.handleTLSEvents\<close> (the drain loop), \<^verbatim>\<open>tlsKey\<close>, \<^verbatim>\<open>spaceForLevel\<close> and
  \<^verbatim>\<open>Conn.handleCrypto\<close>. They mutate the connection \<^verbatim>\<open>c\<close> and return a Go \<^verbatim>\<open>error\<close>;
  the model passes the connection explicitly and returns it together with
  \<open>error option\<close> (\<open>None\<close> is \<^verbatim>\<open>nil\<close>).
\<close>

subsection \<open>Values of crypto/tls\<close>

type_synonym byte = "8 word"
type_synonym bytes = "byte list"
type_synonym time = int

text \<open>\<^verbatim>\<open>type QUICEncryptionLevel int\<close>, with its four constants in \<^verbatim>\<open>iota\<close> order.\<close>

type_synonym QUICEncryptionLevel = int

definition QUICEncryptionLevelInitial :: QUICEncryptionLevel where
  "QUICEncryptionLevelInitial = 0"

definition QUICEncryptionLevelEarly :: QUICEncryptionLevel where
  "QUICEncryptionLevelEarly = 1"

definition QUICEncryptionLevelHandshake :: QUICEncryptionLevel where
  "QUICEncryptionLevelHandshake = 2"

definition QUICEncryptionLevelApplication :: QUICEncryptionLevel where
  "QUICEncryptionLevelApplication = 3"

text \<open>
  \<^verbatim>\<open>type QUICEventKind int\<close>, with its constants in \<^verbatim>\<open>iota\<close> order (go1.21). tls.go
  only compares kinds and levels with the constants, so that the constants differ is
  all that matters.
\<close>

type_synonym QUICEventKind = int

definition QUICNoEvent :: QUICEventKind where
  "QUICNoEvent = 0"

definition QUICSetReadSecret :: QUICEventKind where
  "QUICSetReadSecret = 1"

definition QUICSetWriteSecret :: QUICEventKind where
  "QUICSetWriteSecret = 2"

definition QUICWriteData :: QUICEventKind where
  "QUICWriteData = 3"

definition QUICTransportParameters :: QUICEventKind where
  "QUICTransportParameters = 4"

definition QUICTransportParametersRequired :: QUICEventKind where
  "QUICTransportParametersRequired = 5"

definition QUICRejectedEarlyData :: QUICEventKind where
  "QUICRejectedEarlyData = 6"

definition QUICHandshakeDone :: QUICEventKind where
  "QUICHandshakeDone = 7"

text \<open>\<^verbatim>\<open>tls.QUICEvent\<close>: the fields this file reads.\<close>

record QUICEvent =
  Kind :: QUICEventKind
  Level :: QUICEncryptionLevel
  Data :: bytes
  Suite :: "16 word"

text \<open>\<^verbatim>\<open>tls.Config\<close>: the one field this file reads.\<close>

record tlsConfig =
  SessionTicketsDisabled :: bool

subsection \<open>Values of package quic declared outside tls.go\<close>

text \<open>
  Modelled from the spec: the declaration of \<^verbatim>\<open>numberSpace\<close> and of its constants is
  not in tls.go. The spec's NumberSpace is the enumeration Initial, Handshake, AppData;
  \<^verbatim>\<open>spaceForLevel\<close> returns the literal \<^verbatim>\<open>0\<close> of this type and \<^verbatim>\<open>handleCrypto\<close> has a
  \<^verbatim>\<open>default\<close> branch for a fourth value, so the type is numeric and has more than
  three values. Only the distinctness of the three constants is used below.
\<close>

type_synonym numberSpace = nat

definition initialSpace :: numberSpace where
  "initialSpace = 0"

definition handshakeSpace :: numberSpace where
  "handshakeSpace = 1"

definition appDataSpace :: numberSpace where
  "appDataSpace = 2"

datatype connSide = clientSide | serverSide

text \<open>
  Go errors. The first two are the errors tls.go builds itself; \<open>ErrCryptoConflict\<close> is
  the protocol error of the inbound byte stream; \<open>ErrOther\<close> is an error returned by a
  collaborator, passed on unchanged.
\<close>

datatype error =
    ErrLevel QUICEncryptionLevel
      \<comment> \<open>\<^verbatim>\<open>"quic: internal error: write handshake data at level %v"\<close>\<close>
  | ErrNumberSpace
      \<comment> \<open>\<^verbatim>\<open>"quic: internal error: received CRYPTO frame in unexpected number space"\<close>\<close>
  | ErrCryptoConflict
  | ErrOther string

subsection \<open>spaceForLevel and the switch of handleCrypto\<close>

definition spaceForLevel :: "QUICEncryptionLevel \<Rightarrow> error + numberSpace" where
  "spaceForLevel level =
     (if level = QUICEncryptionLevelInitial then Inr initialSpace
      else if level = QUICEncryptionLevelHandshake then Inr handshakeSpace
      else if level = QUICEncryptionLevelApplication then Inr appDataSpace
      else Inl (ErrLevel level))"

text \<open>Lines 119 to 129 of \<^verbatim>\<open>Conn.handleCrypto\<close>: the level of a number space.\<close>

definition levelForSpace :: "numberSpace \<Rightarrow> error + QUICEncryptionLevel" where
  "levelForSpace space =
     (if space = initialSpace then Inr QUICEncryptionLevelInitial
      else if space = handshakeSpace then Inr QUICEncryptionLevelHandshake
      else if space = appDataSpace then Inr QUICEncryptionLevelApplication
      else Inl ErrNumberSpace)"

subsection \<open>The handshake byte stream of one number space\<close>

text \<open>
  Modelled from the spec: \<^verbatim>\<open>cryptoStream\<close>, with its methods \<^verbatim>\<open>write\<close> and
  \<^verbatim>\<open>handleCrypto\<close>, is not in tls.go. The spec (sections 3, 4.1 and 4.3) gives it an
  inbound reorder buffer keyed by byte offset with the next expected contiguous offset
  (the delivery cursor), and an outbound append-only buffer. Inserting a span whose
  bytes differ from bytes stored at the same offsets is a protocol error; identical
  bytes are stored again silently. After an insertion the longest gap-free run that
  starts at the cursor is handed to the callback, and the cursor advances only when the
  callback succeeds.
\<close>

record cryptoStream =
  inbuf :: "byte option list"  \<comment> \<open>the byte received at each offset, if any\<close>
  instart :: nat  \<comment> \<open>the delivery cursor\<close>
  out :: bytes  \<comment> \<open>the outbound buffer\<close>

definition stored :: "byte option list \<Rightarrow> nat \<Rightarrow> byte option" where
  "stored buf i = (if i < length buf then buf ! i else None)"

fun conflicts :: "byte option list \<Rightarrow> nat \<Rightarrow> bytes \<Rightarrow> bool" where
  "conflicts buf off [] = False"
| "conflicts buf off (b # bs) =
     ((case stored buf off of None \<Rightarrow> False | Some b' \<Rightarrow> b' \<noteq> b) \<or> conflicts buf (Suc off) bs)"

definition insertAt :: "nat \<Rightarrow> bytes \<Rightarrow> byte option list \<Rightarrow> byte option list" where
  "insertAt off b buf =
     (let padded = buf @ replicate (off + length b - length buf) None
      in take off padded @ map Some b @ drop (off + length b) padded)"

definition contiguous :: "byte option list \<Rightarrow> nat \<Rightarrow> bytes" where
  "contiguous buf start = map the (takeWhile (\<lambda>x. x \<noteq> None) (drop start buf))"

definition cryptoStream_write :: "bytes \<Rightarrow> cryptoStream \<Rightarrow> cryptoStream" where
  "cryptoStream_write b s = s\<lparr>out := out s @ b\<rparr>"

text \<open>
  The callback \<open>f\<close> changes state outside the stream (the TLS engine), passed as \<open>st\<close>.
\<close>

definition cryptoStream_handleCrypto ::
  "nat \<Rightarrow> bytes \<Rightarrow> (bytes \<Rightarrow> 'st \<Rightarrow> error option \<times> 'st) \<Rightarrow> cryptoStream \<Rightarrow> 'st
     \<Rightarrow> error option \<times> cryptoStream \<times> 'st" where
  "cryptoStream_handleCrypto off b f s st =
     (if conflicts (inbuf s) off b then (Some ErrCryptoConflict, s, st)
      else
        let s1 = s\<lparr>inbuf := insertAt off b (inbuf s)\<rparr>;
            chunk = contiguous (inbuf s1) (instart s1)
        in if chunk = [] then (None, s1, st)
           else
             (case f chunk st of
                (Some err, st') \<Rightarrow> (Some err, s1, st')
              | (None, st') \<Rightarrow> (None, s1\<lparr>instart := instart s1 + length chunk\<rparr>, st')))"

subsection \<open>The connection and its collaborators\<close>

text \<open>
  The calls that tls.go makes on collaborators whose effect is outside the connection
  fields modelled here are recorded, in order, in the field \<open>calls\<close>: the test hook,
  the engine's \<^verbatim>\<open>SendSessionTicket\<close> and \<^verbatim>\<open>HandleData\<close>, and the connection's
  \<^verbatim>\<open>receiveTransportParameters\<close> (the parameter sink of the spec).
\<close>

datatype 'p call =
    TestHookTLSEvent QUICEvent
  | SendSessionTicketCall bool
  | HandleDataCall QUICEncryptionLevel bytes
  | ReceiveTransportParametersCall 'p

text \<open>
  The fields of \<^verbatim>\<open>Conn\<close> that tls.go reads or writes. \<open>'k\<close> is the type \<^verbatim>\<open>keys\<close>, \<open>'e\<close>
  the state of the TLS engine \<^verbatim>\<open>*tls.QUICConn\<close>, \<open>'p\<close> the type
  \<^verbatim>\<open>transportParameters\<close>. The arrays \<^verbatim>\<open>wkeys\<close>, \<^verbatim>\<open>rkeys\<close> and \<^verbatim>\<open>crypto\<close> are indexed by
  number space; tls.go indexes them only with one of the three constants (the result of
  a successful \<^verbatim>\<open>spaceForLevel\<close>, or after the switch of \<^verbatim>\<open>handleCrypto\<close>), never out
  of range. \<open>testHooks\<close> says whether \<^verbatim>\<open>c.testHooks\<close> is non-nil. \<open>tls\<close> is the engine
  that \<^verbatim>\<open>startTLS\<close> creates before any other function of the file runs.
\<close>

record ('k, 'e, 'p) Conn =
  side :: connSide
  config :: tlsConfig
  testHooks :: bool
  wkeys :: "numberSpace \<Rightarrow> 'k"
  rkeys :: "numberSpace \<Rightarrow> 'k"
  crypto :: "numberSpace \<Rightarrow> cryptoStream"
  tls :: 'e
  handshakeConfirmed :: "time option"
  calls :: "'p call list"

text \<open>
  The functions tls.go calls that are declared elsewhere: key derivation
  (\<^verbatim>\<open>initialKeys\<close>, \<^verbatim>\<open>newKeys\<close>), the transport parameter codec, and the methods of the
  TLS engine. They are parameters of the model; an engine method takes the engine's
  state and returns the new one.
\<close>

record ('k, 'e, 'p) ops =
  initialKeys :: "bytes \<Rightarrow> 'k \<times> 'k"  \<comment> \<open>client keys, server keys\<close>
  newKeys :: "16 word \<Rightarrow> bytes \<Rightarrow> error + 'k"
  marshalTransportParameters :: "'p \<Rightarrow> bytes"
  unmarshalTransportParams :: "bytes \<Rightarrow> error + 'p"
  QUICClient :: "tlsConfig \<Rightarrow> 'e"
  QUICServer :: "tlsConfig \<Rightarrow> 'e"
  SetTransportParameters :: "bytes \<Rightarrow> 'e \<Rightarrow> 'e"
  Start :: "'e \<Rightarrow> error option \<times> 'e"
  NextEvent :: "'e \<Rightarrow> QUICEvent \<times> 'e"
  HandleData :: "QUICEncryptionLevel \<Rightarrow> bytes \<Rightarrow> 'e \<Rightarrow> error option \<times> 'e"
  SendSessionTicket :: "bool \<Rightarrow> 'e \<Rightarrow> error option \<times> 'e"

text \<open>
  Modelled from the spec: \<^verbatim>\<open>Conn.confirmHandshake\<close> is not in tls.go. The spec's
  confirmation flag is set with the timestamp of the call, at most once, and never
  goes back.
\<close>

definition confirmHandshake :: "time \<Rightarrow> ('k, 'e, 'p) Conn \<Rightarrow> ('k, 'e, 'p) Conn" where
  "confirmHandshake now c =
     (case handshakeConfirmed c of
        None \<Rightarrow> c\<lparr>handshakeConfirmed := Some now\<rparr>
      | Some _ \<Rightarrow> c)"

text \<open>
  Modelled from the spec: \<^verbatim>\<open>Conn.receiveTransportParameters\<close> is not in tls.go. The spec
  calls it the connection's parameter sink; the model records the call with the
  parameters it is given.
\<close>

definition receiveTransportParameters :: "'p \<Rightarrow> ('k, 'e, 'p) Conn \<Rightarrow> ('k, 'e, 'p) Conn" where
  "receiveTransportParameters params c =
     c\<lparr>calls := calls c @ [ReceiveTransportParametersCall params]\<rparr>"

text \<open>\<^verbatim>\<open>c.tls.SendSessionTicket(earlyData)\<close>.\<close>

definition sendSessionTicket ::
  "('k, 'e, 'p) ops \<Rightarrow> bool \<Rightarrow> ('k, 'e, 'p) Conn \<Rightarrow> error option \<times> ('k, 'e, 'p) Conn" where
  "sendSessionTicket ops earlyData c =
     (case SendSessionTicket ops earlyData (tls c) of
        (err, t) \<Rightarrow> (err, c\<lparr>tls := t, calls := calls c @ [SendSessionTicketCall earlyData]\<rparr>))"

text \<open>\<^verbatim>\<open>c.tls.HandleData(level, b)\<close>, the callback of \<^verbatim>\<open>Conn.handleCrypto\<close>.\<close>

definition handleData ::
  "('k, 'e, 'p) ops \<Rightarrow> QUICEncryptionLevel \<Rightarrow> bytes \<Rightarrow> ('k, 'e, 'p) Conn
     \<Rightarrow> error option \<times> ('k, 'e, 'p) Conn" where
  "handleData ops level b c =
     (case HandleData ops level b (tls c) of
        (err, t) \<Rightarrow> (err, c\<lparr>tls := t, calls := calls c @ [HandleDataCall level b]\<rparr>))"

subsection \<open>tlsKey\<close>

definition tlsKey :: "('k, 'e, 'p) ops \<Rightarrow> QUICEvent \<Rightarrow> error + numberSpace \<times> 'k" where
  "tlsKey ops e =
     (case spaceForLevel (Level e) of
        Inl err \<Rightarrow> Inl err
      | Inr space \<Rightarrow>
          (case newKeys ops (Suite e) (Data e) of
             Inl err \<Rightarrow> Inl err
           | Inr k \<Rightarrow> Inr (space, k)))"

subsection \<open>Conn.handleTLSEvents\<close>

text \<open>
  Lines 44 to 47: fetch the next event from the engine and show it to the test hook.
\<close>

definition nextEvent ::
  "('k, 'e, 'p) ops \<Rightarrow> ('k, 'e, 'p) Conn \<Rightarrow> QUICEvent \<times> ('k, 'e, 'p) Conn" where
  "nextEvent ops c =
     (case NextEvent ops (tls c) of
        (e, t) \<Rightarrow>
          (e, if testHooks c then c\<lparr>tls := t, calls := calls c @ [TestHookTLSEvent e]\<rparr>
              else c\<lparr>tls := t\<rparr>))"

text \<open>
  Lines 48 to 87, the switch on the event's kind: it either returns from the function
  (\<open>Return\<close>, with the error or \<^verbatim>\<open>nil\<close>) or falls out of the switch into the next
  iteration of the loop (\<open>Continue\<close>). A kind with no case falls out of the switch.
\<close>

datatype 'c step = Return "error option" 'c | Continue 'c

definition handleTLSEvent ::
  "('k, 'e, 'p) ops \<Rightarrow> time \<Rightarrow> QUICEvent \<Rightarrow> ('k, 'e, 'p) Conn \<Rightarrow> ('k, 'e, 'p) Conn step" where
  "handleTLSEvent ops now e c =
     (if Kind e = QUICNoEvent then Return None c
      else if Kind e = QUICSetReadSecret then
        (case tlsKey ops e of
           Inl err \<Rightarrow> Return (Some err) c
         | Inr (space, k) \<Rightarrow> Continue (c\<lparr>rkeys := (rkeys c)(space := k)\<rparr>))
      else if Kind e = QUICSetWriteSecret then
        (case tlsKey ops e of
           Inl err \<Rightarrow> Return (Some err) c
         | Inr (space, k) \<Rightarrow> Continue (c\<lparr>wkeys := (wkeys c)(space := k)\<rparr>))
      else if Kind e = QUICWriteData then
        (case spaceForLevel (Level e) of
           Inl err \<Rightarrow> Return (Some err) c
         | Inr space \<Rightarrow>
             Continue (c\<lparr>crypto := (crypto c)(space := cryptoStream_write (Data e) (crypto c space))\<rparr>))
      else if Kind e = QUICHandshakeDone then
        (if side c = serverSide then
           (let c1 = confirmHandshake now c
            in if \<not> SessionTicketsDisabled (config c1) then
                 (case sendSessionTicket ops False c1 of
                    (Some err, c2) \<Rightarrow> Return (Some err) c2
                  | (None, c2) \<Rightarrow> Continue c2)
               else Continue c1)
         else Continue c)
      else if Kind e = QUICTransportParameters then
        (case unmarshalTransportParams ops (Data e) of
           Inl err \<Rightarrow> Return (Some err) c
         | Inr params \<Rightarrow> Continue (receiveTransportParameters params c))
      else Continue c)"

text \<open>One iteration of the \<^verbatim>\<open>for\<close> loop.\<close>

definition iteration ::
  "('k, 'e, 'p) ops \<Rightarrow> time \<Rightarrow> ('k, 'e, 'p) Conn \<Rightarrow> ('k, 'e, 'p) Conn step" where
  "iteration ops now c = (case nextEvent ops c of (e, c1) \<Rightarrow> handleTLSEvent ops now e c1)"

text \<open>
  The loop has no bound: it runs until the switch returns. \<open>None\<close> is the loop that
  never returns.
\<close>

partial_function (option) handleTLSEvents ::
  "('k, 'e, 'p) ops \<Rightarrow> time \<Rightarrow> ('k, 'e, 'p) Conn \<Rightarrow> (error option \<times> ('k, 'e, 'p) Conn) option" where
  "handleTLSEvents ops now c =
     (case iteration ops now c of
        Return err c' \<Rightarrow> Some (err, c')
      | Continue c' \<Rightarrow> handleTLSEvents ops now c')"

declare handleTLSEvents.simps [code]

text \<open>
  The connection after \<open>n\<close> iterations that all fell out of the switch; \<open>None\<close> when
  one of them returned.
\<close>

fun iterations ::
  "('k, 'e, 'p) ops \<Rightarrow> time \<Rightarrow> nat \<Rightarrow> ('k, 'e, 'p) Conn \<Rightarrow> ('k, 'e, 'p) Conn option" where
  "iterations ops now 0 c = Some c"
| "iterations ops now (Suc n) c =
     (case iteration ops now c of
        Return err c' \<Rightarrow> None
      | Continue c' \<Rightarrow> iterations ops now n c')"

fun conn_of :: "'c step \<Rightarrow> 'c" where
  "conn_of (Return err c) = c"
| "conn_of (Continue c) = c"

subsection \<open>Conn.startTLS\<close>

text \<open>Lines 19 to 24: the keys of the initial space.\<close>

definition installInitialKeys ::
  "('k, 'e, 'p) ops \<Rightarrow> bytes \<Rightarrow> ('k, 'e, 'p) Conn \<Rightarrow> ('k, 'e, 'p) Conn" where
  "installInitialKeys ops initialConnID c =
     (case initialKeys ops initialConnID of
        (clientKeys, serverKeys) \<Rightarrow>
          if side c = clientSide then
            c\<lparr>wkeys := (wkeys c)(initialSpace := clientKeys),
              rkeys := (rkeys c)(initialSpace := serverKeys)\<rparr>
          else
            c\<lparr>wkeys := (wkeys c)(initialSpace := serverKeys),
              rkeys := (rkeys c)(initialSpace := clientKeys)\<rparr>)"

definition startTLS ::
  "('k, 'e, 'p) ops \<Rightarrow> time \<Rightarrow> bytes \<Rightarrow> 'p \<Rightarrow> ('k, 'e, 'p) Conn
     \<Rightarrow> (error option \<times> ('k, 'e, 'p) Conn) option" where
  "startTLS ops now initialConnID params c =
     (let c1 = installInitialKeys ops initialConnID c;
          t1 = (if side c1 = clientSide then QUICClient ops (config c1)
                else QUICServer ops (config c1));
          t2 = SetTransportParameters ops (marshalTransportParameters ops params) t1
      in case Start ops t2 of
           (Some err, t3) \<Rightarrow> Some (Some err, c1\<lparr>tls := t3\<rparr>)
         | (None, t3) \<Rightarrow> handleTLSEvents ops now (c1\<lparr>tls := t3\<rparr>))"

subsection \<open>Conn.handleCrypto\<close>

text \<open>
  The offset \<^verbatim>\<open>off\<close> is an \<^verbatim>\<open>int64\<close> that tls.go only passes on to the stream; the stream
  of the spec is keyed by byte offsets, which are natural numbers.
\<close>

definition handleCrypto ::
  "('k, 'e, 'p) ops \<Rightarrow> time \<Rightarrow> numberSpace \<Rightarrow> nat \<Rightarrow> bytes \<Rightarrow> ('k, 'e, 'p) Conn
     \<Rightarrow> (error option \<times> ('k, 'e, 'p) Conn) option" where
  "handleCrypto ops now space off b c =
     (case levelForSpace space of
        Inl err \<Rightarrow> Some (Some err, c)
      | Inr level \<Rightarrow>
          (case cryptoStream_handleCrypto off b (handleData ops level) (crypto c space) c of
             (Some err, s, c1) \<Rightarrow> Some (Some err, c1\<lparr>crypto := (crypto c1)(space := s)\<rparr>)
           | (None, s, c1) \<Rightarrow>
               handleTLSEvents ops now (c1\<lparr>crypto := (crypto c1)(space := s)\<rparr>)))"

subsection \<open>A scripted engine, for the examples\<close>

text \<open>
  A stand-in for the collaborators, as a test of tls.go would use: the engine's state is
  the list of events it will report, \<^verbatim>\<open>NextEvent\<close> reports the first of them, or
  \<^verbatim>\<open>QUICNoEvent\<close> when there is none; keys are the pair of the cipher suite and the
  secret they come from; transport parameters are their own encoding, and the empty
  encoding does not parse.
\<close>

type_synonym scriptKeys = "16 word \<times> bytes"

definition noEvent :: QUICEvent where
  "noEvent = \<lparr>Kind = QUICNoEvent, Level = 0, Data = [], Suite = 0\<rparr>"

definition scriptOps :: "(scriptKeys, QUICEvent list, bytes) ops" where
  "scriptOps =
     \<lparr>initialKeys = (\<lambda>cid. ((1, cid), (2, cid))),
      newKeys = (\<lambda>suite secret. Inr (suite, secret)),
      marshalTransportParameters = (\<lambda>p. p),
      unmarshalTransportParams = (\<lambda>b. if b = [] then Inl (ErrOther ''malformed'') else Inr b),
      QUICClient = (\<lambda>cfg. []),
      QUICServer = (\<lambda>cfg. []),
      SetTransportParameters = (\<lambda>b t. t),
      Start = (\<lambda>t. (None, t)),
      NextEvent = (\<lambda>t. case t of [] \<Rightarrow> (noEvent, []) | e # es \<Rightarrow> (e, es)),
      HandleData = (\<lambda>level b t. (None, t)),
      SendSessionTicket = (\<lambda>earlyData t. (None, t))\<rparr>"

definition emptyStream :: cryptoStream where
  "emptyStream = \<lparr>inbuf = [], instart = 0, out = []\<rparr>"

definition scriptConn ::
  "connSide \<Rightarrow> bool \<Rightarrow> QUICEvent list \<Rightarrow> (scriptKeys, QUICEvent list, bytes) Conn" where
  "scriptConn sd disabled evs =
     \<lparr>side = sd, config = \<lparr>SessionTicketsDisabled = disabled\<rparr>, testHooks = False,
      wkeys = (\<lambda>space. (0, [])), rkeys = (\<lambda>space. (0, [])),
      crypto = (\<lambda>space. emptyStream), tls = evs, handshakeConfirmed = None, calls = []\<rparr>"

definition event :: "QUICEventKind \<Rightarrow> QUICEncryptionLevel \<Rightarrow> bytes \<Rightarrow> QUICEvent" where
  "event k l d = \<lparr>Kind = k, Level = l, Data = d, Suite = 0x1301\<rparr>"

subsection \<open>Vocabulary of the properties\<close>

text \<open>The six kinds of event that the switch of \<^verbatim>\<open>handleTLSEvents\<close> has a case for.\<close>

definition knownKinds :: "QUICEventKind set" where
  "knownKinds = {QUICNoEvent, QUICSetReadSecret, QUICSetWriteSecret, QUICWriteData,
     QUICHandshakeDone, QUICTransportParameters}"

text \<open>The three encryption levels that \<^verbatim>\<open>spaceForLevel\<close> has a case for.\<close>

definition knownLevels :: "QUICEncryptionLevel set" where
  "knownLevels = {QUICEncryptionLevelInitial, QUICEncryptionLevelHandshake,
     QUICEncryptionLevelApplication}"

text \<open>
  The engine comes to rest within \<open>n\<close> calls of \<^verbatim>\<open>NextEvent\<close>: it reports
  \<^verbatim>\<open>QUICNoEvent\<close> at one of them, whether or not \<^verbatim>\<open>SendSessionTicket(false)\<close>, the only
  other method of the engine that the loop calls, is called after an event.
\<close>

fun settles :: "('k, 'e, 'p) ops \<Rightarrow> nat \<Rightarrow> 'e \<Rightarrow> bool" where
  "settles ops 0 t = False"
| "settles ops (Suc n) t =
     (case NextEvent ops t of
        (e, t') \<Rightarrow>
          Kind e = QUICNoEvent
          \<or> (settles ops n t' \<and> settles ops n (snd (SendSessionTicket ops False t'))))"

text \<open>
  The bytes handed to \<^verbatim>\<open>HandleData\<close> at one level, in the order of the calls.
\<close>

fun fedBytes :: "QUICEncryptionLevel \<Rightarrow> 'p call list \<Rightarrow> bytes" where
  "fedBytes level [] = []"
| "fedBytes level (HandleDataCall l b # cs) = (if l = level then b else []) @ fedBytes level cs"
| "fedBytes level (TestHookTLSEvent e # cs) = fedBytes level cs"
| "fedBytes level (SendSessionTicketCall d # cs) = fedBytes level cs"
| "fedBytes level (ReceiveTransportParametersCall p # cs) = fedBytes level cs"

text \<open>
  A sequence of calls of \<^verbatim>\<open>Conn.handleCrypto\<close> for one number space, each with its time,
  offset and data, that all return \<^verbatim>\<open>nil\<close>; \<open>None\<close> when one of them returns an error or
  does not return.
\<close>

fun deliverAll ::
  "('k, 'e, 'p) ops \<Rightarrow> numberSpace \<Rightarrow> (time \<times> nat \<times> bytes) list \<Rightarrow> ('k, 'e, 'p) Conn
     \<Rightarrow> ('k, 'e, 'p) Conn option" where
  "deliverAll ops space [] c = Some c"
| "deliverAll ops space ((now, off, b) # ds) c =
     (case handleCrypto ops now space off b c of
        Some (None, c') \<Rightarrow> deliverAll ops space ds c'
      | _ \<Rightarrow> None)"

text \<open>
  The inbound side of a stream holds part of the data \<open>D\<close> that begins at offset
  \<open>base\<close>: every byte stored at or after \<open>base\<close> is the byte of \<open>D\<close> at that offset, the
  bytes from \<open>base\<close> up to the cursor are stored, and the byte at the cursor is not.
\<close>

definition inboundOf :: "bytes \<Rightarrow> nat \<Rightarrow> cryptoStream \<Rightarrow> bool" where
  "inboundOf D base s \<longleftrightarrow>
     base \<le> instart s \<and> instart s \<le> base + length D
     \<and> (\<forall>i. base \<le> i \<longrightarrow>
           stored (inbuf s) i = None
           \<or> (i < base + length D \<and> stored (inbuf s) i = Some (D ! (i - base))))
     \<and> (\<forall>i. base \<le> i \<and> i < instart s \<longrightarrow> stored (inbuf s) i \<noteq> None)
     \<and> stored (inbuf s) (instart s) = None"

subsection \<open>A recording engine, for the examples\<close>

text \<open>
  A second stand-in, whose engine keeps what it is given: its state is the list of
  events it will report, the bytes that \<^verbatim>\<open>HandleData\<close> was called with, and the number
  of calls of \<^verbatim>\<open>SendSessionTicket\<close>. As in crypto/tls, a second call of
  \<^verbatim>\<open>SendSessionTicket\<close> returns an error.
\<close>

type_synonym recordingEngine = "QUICEvent list \<times> bytes \<times> nat"

definition recordingOps :: "(scriptKeys, recordingEngine, bytes) ops" where
  "recordingOps =
     \<lparr>initialKeys = (\<lambda>cid. ((1, cid), (2, cid))),
      newKeys = (\<lambda>suite secret. Inr (suite, secret)),
      marshalTransportParameters = (\<lambda>p. p),
      unmarshalTransportParams = (\<lambda>b. if b = [] then Inl (ErrOther ''malformed'') else Inr b),
      QUICClient = (\<lambda>cfg. ([], [], 0)),
      QUICServer = (\<lambda>cfg. ([], [], 0)),
      SetTransportParameters = (\<lambda>b t. t),
      Start = (\<lambda>t. (None, t)),
      NextEvent = (\<lambda>(evs, fed, n).
        case evs of [] \<Rightarrow> (noEvent, ([], fed, n)) | e # es \<Rightarrow> (e, (es, fed, n))),
      HandleData = (\<lambda>level b (evs, fed, n). (None, (evs, fed @ b, n))),
      SendSessionTicket = (\<lambda>earlyData (evs, fed, n).
        (if n = 0 then None else Some (ErrOther ''tls: SendSessionTicket called multiple times''),
         (evs, fed, Suc n)))\<rparr>"

definition recordingConn ::
  "connSide \<Rightarrow> bool \<Rightarrow> recordingEngine \<Rightarrow> (scriptKeys, recordingEngine, bytes) Conn" where
  "recordingConn sd disabled t =
     \<lparr>side = sd, config = \<lparr>SessionTicketsDisabled = disabled\<rparr>, testHooks = False,
      wkeys = (\<lambda>space. (0, [])), rkeys = (\<lambda>space. (0, [])),
      crypto = (\<lambda>space. emptyStream), tls = t, handshakeConfirmed = None, calls = []\<rparr>"

subsection \<open>The engine during a run of the loop\<close>

text \<open>
  The engine after a run of the loop: at each iteration \<^verbatim>\<open>NextEvent\<close> is called, and
  after it \<^verbatim>\<open>SendSessionTicket(false)\<close> or nothing; the list says which, iteration by
  iteration.
\<close>

fun engineRun :: "('k, 'e, 'p) ops \<Rightarrow> bool list \<Rightarrow> 'e \<Rightarrow> 'e" where
  "engineRun ops [] t = t"
| "engineRun ops (ticket # xs) t =
     engineRun ops xs
       (if ticket then snd (SendSessionTicket ops False (snd (NextEvent ops t)))
        else snd (NextEvent ops t))"

section \<open>Properties\<close>

subsection \<open>Unfolding the constants\<close>

lemmas level_defs =
  QUICEncryptionLevelInitial_def QUICEncryptionLevelEarly_def
  QUICEncryptionLevelHandshake_def QUICEncryptionLevelApplication_def

lemmas kind_defs =
  QUICNoEvent_def QUICSetReadSecret_def QUICSetWriteSecret_def QUICWriteData_def
  QUICTransportParameters_def QUICTransportParametersRequired_def
  QUICRejectedEarlyData_def QUICHandshakeDone_def

lemmas space_defs = initialSpace_def handshakeSpace_def appDataSpace_def

lemmas script_defs = scriptOps_def scriptConn_def event_def noEvent_def emptyStream_def

subsection \<open>The loop, one iteration at a time\<close>

lemma handleTLSEvents_Return:
  "iteration ops now c = Return err c' \<Longrightarrow> handleTLSEvents ops now c = Some (err, c')"
  by (subst handleTLSEvents.simps) simp

lemma handleTLSEvents_Continue:
  "iteration ops now c = Continue c' \<Longrightarrow> handleTLSEvents ops now c = handleTLSEvents ops now c'"
  by (subst handleTLSEvents.simps) simp

lemma iterations_handleTLSEvents:
  "iterations ops now n c = Some c' \<Longrightarrow> handleTLSEvents ops now c = handleTLSEvents ops now c'"
proof (induction n arbitrary: c)
  case 0
  then show ?case by simp
next
  case (Suc n)
  then obtain c1 where it: "iteration ops now c = Continue c1" and rest: "iterations ops now n c1 = Some c'"
    by (auto split: step.splits)
  from it have "handleTLSEvents ops now c = handleTLSEvents ops now c1"
    by (rule handleTLSEvents_Continue)
  with Suc.IH [OF rest] show ?case by simp
qed

text \<open>
  What the loop returns, it returns from some iteration, after finitely many iterations
  that fell out of the switch.
\<close>

lemma handleTLSEvents_iterations:
  assumes "handleTLSEvents ops now c = Some r"
  shows "\<exists>n cn. iterations ops now n c = Some cn \<and> iteration ops now cn = Return (fst r) (snd r)"
proof (rule handleTLSEvents.raw_induct
    [where P = "\<lambda>ops now c r. \<exists>n cn. iterations ops now n c = Some cn
        \<and> iteration ops now cn = Return (fst r) (snd r)", OF _ assms])
  fix drain :: "('a, 'b, 'c) ops \<Rightarrow> time \<Rightarrow> ('a, 'b, 'c) Conn
      \<Rightarrow> (error option \<times> ('a, 'b, 'c) Conn) option"
  fix ops now c r
  assume IH: "\<And>ops now c r. drain ops now c = Some r \<Longrightarrow>
      \<exists>n cn. iterations ops now n c = Some cn \<and> iteration ops now cn = Return (fst r) (snd r)"
  assume body: "(case iteration ops now c of Return err c' \<Rightarrow> Some (err, c')
      | Continue c' \<Rightarrow> drain ops now c') = Some r"
  show "\<exists>n cn. iterations ops now n c = Some cn \<and> iteration ops now cn = Return (fst r) (snd r)"
  proof (cases "iteration ops now c")
    case (Return err c')
    with body have "r = (err, c')" by simp
    with Return have "iterations ops now 0 c = Some c \<and> iteration ops now c = Return (fst r) (snd r)"
      by simp
    then show ?thesis by blast
  next
    case (Continue c')
    with body have "drain ops now c' = Some r" by simp
    from IH [OF this] obtain n cn where
      "iterations ops now n c' = Some cn" and ret: "iteration ops now cn = Return (fst r) (snd r)"
      by blast
    with Continue have "iterations ops now (Suc n) c = Some cn" by simp
    with ret show ?thesis by blast
  qed
qed

text \<open>Fetching an event changes the engine and tells the test hook, nothing else.\<close>

lemma nextEvent_frame:
  "nextEvent ops c = (e, c1) \<Longrightarrow>
     e = fst (NextEvent ops (tls c)) \<and> tls c1 = snd (NextEvent ops (tls c))
     \<and> side c1 = side c \<and> config c1 = config c \<and> testHooks c1 = testHooks c
     \<and> wkeys c1 = wkeys c \<and> rkeys c1 = rkeys c \<and> crypto c1 = crypto c
     \<and> handshakeConfirmed c1 = handshakeConfirmed c
     \<and> calls c1 = calls c @ (if testHooks c then [TestHookTLSEvent e] else [])"
  by (auto simp: nextEvent_def split: prod.splits)

subsection \<open>Number spaces and encryption levels\<close>

text \<open>
  Claim C5. The three number spaces and the three encryption levels Initial, Handshake
  and Application correspond one to one: the level that \<^verbatim>\<open>handleCrypto\<close> chooses for a
  space is mapped back to that space by \<^verbatim>\<open>spaceForLevel\<close>, and conversely. Every other
  level makes \<^verbatim>\<open>spaceForLevel\<close> return an error, and every other space makes
  \<^verbatim>\<open>handleCrypto\<close> return an error at once, the connection untouched.
\<close>

theorem level_space_bijection:
  "(space \<in> {initialSpace, handshakeSpace, appDataSpace} \<longrightarrow>
      (\<exists>l. levelForSpace space = Inr l \<and> spaceForLevel l = Inr space))
   \<and> (level \<in> {QUICEncryptionLevelInitial, QUICEncryptionLevelHandshake,
          QUICEncryptionLevelApplication} \<longrightarrow>
      (\<exists>sp. spaceForLevel level = Inr sp \<and> levelForSpace sp = Inr level))
   \<and> (level \<notin> {QUICEncryptionLevelInitial, QUICEncryptionLevelHandshake,
          QUICEncryptionLevelApplication} \<longrightarrow>
      spaceForLevel level = Inl (ErrLevel level))
   \<and> (space \<notin> {initialSpace, handshakeSpace, appDataSpace} \<longrightarrow>
      levelForSpace space = Inl ErrNumberSpace
      \<and> handleCrypto ops now space off b c = Some (Some ErrNumberSpace, c))"
  by (auto simp: levelForSpace_def spaceForLevel_def handleCrypto_def space_defs level_defs)

theorem level_space_bijection_witness:
  "(\<exists>l. levelForSpace handshakeSpace = Inr l \<and> spaceForLevel l = Inr handshakeSpace)
   \<and> (\<exists>sp. spaceForLevel QUICEncryptionLevelHandshake = Inr sp
         \<and> levelForSpace sp = Inr QUICEncryptionLevelHandshake)
   \<and> spaceForLevel QUICEncryptionLevelEarly = Inl (ErrLevel QUICEncryptionLevelEarly)
   \<and> levelForSpace 3 = Inl ErrNumberSpace
   \<and> handleCrypto scriptOps 0 3 0 [1] (scriptConn clientSide False [])
       = Some (Some ErrNumberSpace, scriptConn clientSide False [])"
  using level_space_bijection [of handshakeSpace QUICEncryptionLevelHandshake]
    level_space_bijection [of 3 QUICEncryptionLevelEarly scriptOps 0 0 "[1]"
      "scriptConn clientSide False []"]
  by (auto simp: space_defs level_defs)

subsection \<open>HandshakeDone on the client\<close>

text \<open>
  Claim C9. On the client side an event of kind \<^verbatim>\<open>QUICHandshakeDone\<close> changes nothing:
  the switch leaves the connection as it is (the confirmation flag, the key slots and
  the byte streams are those from before the event, and no session ticket is asked
  for), and the loop goes on with the next event. Fetching the event advanced the
  engine and showed the event to the test hook, if there is one.
\<close>

theorem handshakeDone_client:
  assumes "side c = clientSide" and "nextEvent ops c = (e, c1)" and "Kind e = QUICHandshakeDone"
  shows "handleTLSEvent ops now e c1 = Continue c1
    \<and> handleTLSEvents ops now c = handleTLSEvents ops now c1
    \<and> handshakeConfirmed c1 = handshakeConfirmed c
    \<and> wkeys c1 = wkeys c \<and> rkeys c1 = rkeys c \<and> crypto c1 = crypto c
    \<and> tls c1 = snd (NextEvent ops (tls c))
    \<and> calls c1 = calls c @ (if testHooks c then [TestHookTLSEvent e] else [])"
proof -
  from assms(2) have fr: "side c1 = side c" "handshakeConfirmed c1 = handshakeConfirmed c"
    "wkeys c1 = wkeys c" "rkeys c1 = rkeys c" "crypto c1 = crypto c"
    "tls c1 = snd (NextEvent ops (tls c))"
    "calls c1 = calls c @ (if testHooks c then [TestHookTLSEvent e] else [])"
    using nextEvent_frame by blast+
  have sw: "handleTLSEvent ops now e c1 = Continue c1"
    using assms(1,3) fr(1) by (simp add: handleTLSEvent_def kind_defs)
  then have "iteration ops now c = Continue c1"
    using assms(2) by (simp add: iteration_def)
  then have "handleTLSEvents ops now c = handleTLSEvents ops now c1"
    by (rule handleTLSEvents_Continue)
  with sw fr show ?thesis by simp
qed

theorem handshakeDone_client_witness:
  "handleTLSEvent scriptOps 7 (event QUICHandshakeDone 0 []) (scriptConn clientSide False [])
     = Continue (scriptConn clientSide False [])
   \<and> handleTLSEvents scriptOps 7 (scriptConn clientSide False [event QUICHandshakeDone 0 []])
     = handleTLSEvents scriptOps 7 (scriptConn clientSide False [])
   \<and> handshakeConfirmed (scriptConn clientSide False []) = None
   \<and> calls (scriptConn clientSide False []) = []"
proof -
  have h1: "side (scriptConn clientSide False [event QUICHandshakeDone 0 []]) = clientSide"
    by (simp add: scriptConn_def)
  have h2: "nextEvent scriptOps (scriptConn clientSide False [event QUICHandshakeDone 0 []])
      = (event QUICHandshakeDone 0 [], scriptConn clientSide False [])"
    by (simp add: nextEvent_def scriptOps_def scriptConn_def)
  have h3: "Kind (event QUICHandshakeDone 0 []) = QUICHandshakeDone"
    by (simp add: event_def)
  from handshakeDone_client [OF h1 h2 h3, of 7] show ?thesis
    by (simp add: scriptConn_def)
qed

subsection \<open>Events of a kind without a case\<close>

text \<open>
  Claim C10. An event whose kind is none of the six kinds the switch has a case for
  (\<^verbatim>\<open>QUICTransportParametersRequired\<close> and \<^verbatim>\<open>QUICRejectedEarlyData\<close> are such kinds) is
  ignored: the switch changes nothing and returns no error, and the loop goes on with
  the next event.
\<close>

theorem unknown_kind_ignored:
  assumes "nextEvent ops c = (e, c1)" and "Kind e \<notin> knownKinds"
  shows "handleTLSEvent ops now e c1 = Continue c1
    \<and> handleTLSEvents ops now c = handleTLSEvents ops now c1
    \<and> side c1 = side c \<and> config c1 = config c
    \<and> handshakeConfirmed c1 = handshakeConfirmed c
    \<and> wkeys c1 = wkeys c \<and> rkeys c1 = rkeys c \<and> crypto c1 = crypto c
    \<and> tls c1 = snd (NextEvent ops (tls c))
    \<and> calls c1 = calls c @ (if testHooks c then [TestHookTLSEvent e] else [])"
proof -
  have sw: "handleTLSEvent ops now e c1 = Continue c1"
    using assms(2) by (simp add: handleTLSEvent_def knownKinds_def)
  then have "iteration ops now c = Continue c1"
    using assms(1) by (simp add: iteration_def)
  then have "handleTLSEvents ops now c = handleTLSEvents ops now c1"
    by (rule handleTLSEvents_Continue)
  with sw nextEvent_frame [OF assms(1)] show ?thesis by simp
qed

theorem unknown_kind_ignored_witness:
  "handleTLSEvent scriptOps 7 (event QUICRejectedEarlyData 0 []) (scriptConn serverSide False [])
     = Continue (scriptConn serverSide False [])
   \<and> handleTLSEvents scriptOps 7 (scriptConn serverSide False [event QUICRejectedEarlyData 0 []])
     = handleTLSEvents scriptOps 7 (scriptConn serverSide False [])"
proof -
  have h1: "nextEvent scriptOps (scriptConn serverSide False [event QUICRejectedEarlyData 0 []])
      = (event QUICRejectedEarlyData 0 [], scriptConn serverSide False [])"
    by (simp add: nextEvent_def scriptOps_def scriptConn_def)
  have h2: "Kind (event QUICRejectedEarlyData 0 []) \<notin> knownKinds"
    by (simp add: event_def knownKinds_def kind_defs)
  from unknown_kind_ignored [OF h1 h2, of 7] show ?thesis
    by simp
qed

subsection \<open>Transport parameters\<close>

text \<open>
  Claim C6. An event of kind \<^verbatim>\<open>QUICTransportParameters\<close> has its data parsed by
  \<^verbatim>\<open>unmarshalTransportParams\<close>. When that succeeds, the parsed parameters are passed to
  \<^verbatim>\<open>receiveTransportParameters\<close> and the loop goes on; when it fails, the loop returns
  the parse error and \<^verbatim>\<open>receiveTransportParameters\<close> is not called.
\<close>

theorem transportParameters_event:
  assumes "nextEvent ops c = (e, c1)" and "Kind e = QUICTransportParameters"
  shows "(\<forall>params. unmarshalTransportParams ops (Data e) = Inr params \<longrightarrow>
            handleTLSEvent ops now e c1 = Continue (c1\<lparr>calls := calls c1 @ [ReceiveTransportParametersCall params]\<rparr>)
            \<and> handleTLSEvents ops now c
                = handleTLSEvents ops now (c1\<lparr>calls := calls c1 @ [ReceiveTransportParametersCall params]\<rparr>))
    \<and> (\<forall>err. unmarshalTransportParams ops (Data e) = Inl err \<longrightarrow>
            handleTLSEvent ops now e c1 = Return (Some err) c1
            \<and> handleTLSEvents ops now c = Some (Some err, c1)
            \<and> calls c1 = calls c @ (if testHooks c then [TestHookTLSEvent e] else []))"
proof (intro conjI allI impI)
  fix params
  assume ok: "unmarshalTransportParams ops (Data e) = Inr params"
  show sw: "handleTLSEvent ops now e c1
      = Continue (c1\<lparr>calls := calls c1 @ [ReceiveTransportParametersCall params]\<rparr>)"
    using assms(2) ok
    by (simp add: handleTLSEvent_def kind_defs receiveTransportParameters_def)
  then have "iteration ops now c
      = Continue (c1\<lparr>calls := calls c1 @ [ReceiveTransportParametersCall params]\<rparr>)"
    using assms(1) by (simp add: iteration_def)
  then show "handleTLSEvents ops now c
      = handleTLSEvents ops now (c1\<lparr>calls := calls c1 @ [ReceiveTransportParametersCall params]\<rparr>)"
    by (rule handleTLSEvents_Continue)
next
  fix err
  assume bad: "unmarshalTransportParams ops (Data e) = Inl err"
  show sw: "handleTLSEvent ops now e c1 = Return (Some err) c1"
    using assms(2) bad by (simp add: handleTLSEvent_def kind_defs)
  then have "iteration ops now c = Return (Some err) c1"
    using assms(1) by (simp add: iteration_def)
  then show "handleTLSEvents ops now c = Some (Some err, c1)"
    by (rule handleTLSEvents_Return)
  show "calls c1 = calls c @ (if testHooks c then [TestHookTLSEvent e] else [])"
    using nextEvent_frame [OF assms(1)] by simp
qed

theorem transportParameters_event_witness:
  "handleTLSEvents scriptOps 7 (scriptConn clientSide False [event QUICTransportParameters 0 []])
     = Some (Some (ErrOther ''malformed''), scriptConn clientSide False [])
   \<and> calls (scriptConn clientSide False []) = []
   \<and> handleTLSEvent scriptOps 7 (event QUICTransportParameters 0 [5])
        (scriptConn clientSide False [])
      = Continue ((scriptConn clientSide False [])\<lparr>calls := [ReceiveTransportParametersCall [5]]\<rparr>)"
proof -
  have h1: "nextEvent scriptOps (scriptConn clientSide False [event QUICTransportParameters 0 d])
      = (event QUICTransportParameters 0 d, scriptConn clientSide False [])" for d
    by (simp add: nextEvent_def scriptOps_def scriptConn_def)
  have h2: "Kind (event QUICTransportParameters 0 d) = QUICTransportParameters" for d
    by (simp add: event_def)
  have bad: "unmarshalTransportParams scriptOps (Data (event QUICTransportParameters 0 []))
      = Inl (ErrOther ''malformed'')"
    by (simp add: scriptOps_def event_def)
  have ok: "unmarshalTransportParams scriptOps (Data (event QUICTransportParameters 0 [5]))
      = Inr [5]"
    by (simp add: scriptOps_def event_def)
  have cs: "calls (scriptConn clientSide False []) = []"
    by (simp add: scriptConn_def)
  from transportParameters_event [OF h1 h2, of "[]" 7] bad
    transportParameters_event [OF h1 h2, of "[5]" 7] ok cs
  show ?thesis by simp
qed

subsection \<open>HandshakeDone on the server\<close>

lemma confirmHandshake_frame:
  "handshakeConfirmed (confirmHandshake now c)
     = Some (case handshakeConfirmed c of None \<Rightarrow> now | Some t \<Rightarrow> t)
   \<and> side (confirmHandshake now c) = side c \<and> config (confirmHandshake now c) = config c
   \<and> wkeys (confirmHandshake now c) = wkeys c \<and> rkeys (confirmHandshake now c) = rkeys c
   \<and> crypto (confirmHandshake now c) = crypto c \<and> tls (confirmHandshake now c) = tls c
   \<and> calls (confirmHandshake now c) = calls c"
  by (simp add: confirmHandshake_def split: option.splits)

lemma handleTLSEvent_confirmed:
  "handshakeConfirmed c = Some t \<Longrightarrow> handshakeConfirmed (conn_of (handleTLSEvent ops now e c)) = Some t"
  by (auto simp: handleTLSEvent_def confirmHandshake_def sendSessionTicket_def
      receiveTransportParameters_def Let_def split: sum.splits prod.splits option.splits)

lemma iteration_confirmed:
  "handshakeConfirmed c = Some t \<Longrightarrow> handshakeConfirmed (conn_of (iteration ops now c)) = Some t"
  by (auto simp: iteration_def nextEvent_def handleTLSEvent_confirmed split: prod.splits)

lemma iterations_confirmed:
  "iterations ops now n c = Some c' \<Longrightarrow> handshakeConfirmed c = Some t \<Longrightarrow>
     handshakeConfirmed c' = Some t"
proof (induction n arbitrary: c)
  case 0
  then show ?case by simp
next
  case (Suc n)
  then obtain c1 where it: "iteration ops now c = Continue c1"
    and rest: "iterations ops now n c1 = Some c'"
    by (auto split: step.splits)
  from iteration_confirmed [OF Suc.prems(2), of ops now] it
  have "handshakeConfirmed c1 = Some t" by simp
  with Suc.IH [OF rest] show ?case by simp
qed

lemma handleTLSEvents_confirmed:
  assumes "handleTLSEvents ops now c = Some r" and "handshakeConfirmed c = Some t"
  shows "handshakeConfirmed (snd r) = Some t"
proof -
  from handleTLSEvents_iterations [OF assms(1)] obtain n cn where
    its: "iterations ops now n c = Some cn" and ret: "iteration ops now cn = Return (fst r) (snd r)"
    by blast
  from iterations_confirmed [OF its assms(2)] have "handshakeConfirmed cn = Some t" .
  from iteration_confirmed [OF this, of ops now] ret show ?thesis by simp
qed

text \<open>
  Claim C3. On the server side an event of kind \<^verbatim>\<open>QUICHandshakeDone\<close> confirms the
  handshake with the time \<open>now\<close> of the running call: the confirmation flag, if it was
  not set, is set to \<open>now\<close>, and if it was set it keeps its time. Once set, no later
  event and no later run of the loop changes it, so a second \<^verbatim>\<open>QUICHandshakeDone\<close>
  confirms nothing anew. The engine's \<^verbatim>\<open>SendSessionTicket(false)\<close> is applied to the
  engine exactly when the configuration does not disable session tickets, and nothing
  else of the connection changes. If the send fails the loop returns its error at once;
  otherwise the loop goes on. At every later \<^verbatim>\<open>QUICHandshakeDone\<close> the send is attempted
  again under the same condition.
\<close>

theorem handshakeDone_server:
  assumes "side c = serverSide" and "Kind e = QUICHandshakeDone"
  shows "\<exists>c'. (handleTLSEvent ops now e c = Continue c'
            \<or> (\<exists>err. handleTLSEvent ops now e c = Return (Some err) c'
                  \<and> fst (SendSessionTicket ops False (tls c)) = Some err))
      \<and> handshakeConfirmed c' = Some (case handshakeConfirmed c of None \<Rightarrow> now | Some t \<Rightarrow> t)
      \<and> calls c' = calls c @ (if SessionTicketsDisabled (config c) then []
                               else [SendSessionTicketCall False])
      \<and> (\<forall>now' e'. handshakeConfirmed (conn_of (handleTLSEvent ops now' e' c'))
            = handshakeConfirmed c')
      \<and> (\<forall>now' r. handleTLSEvents ops now' c' = Some r \<longrightarrow>
            handshakeConfirmed (snd r) = handshakeConfirmed c')
      \<and> tls c' = (if SessionTicketsDisabled (config c) then tls c
                  else snd (SendSessionTicket ops False (tls c)))
      \<and> (handleTLSEvent ops now e c = Continue c'
            \<longleftrightarrow> SessionTicketsDisabled (config c)
                \<or> fst (SendSessionTicket ops False (tls c)) = None)
      \<and> (\<forall>err. handleTLSEvent ops now e c = Return (Some err) c'
            \<longleftrightarrow> \<not> SessionTicketsDisabled (config c)
                \<and> fst (SendSessionTicket ops False (tls c)) = Some err)
      \<and> side c' = side c \<and> config c' = config c \<and> testHooks c' = testHooks c
      \<and> wkeys c' = wkeys c \<and> rkeys c' = rkeys c \<and> crypto c' = crypto c
      \<and> (\<forall>c0. nextEvent ops c0 = (e, c) \<longrightarrow>
            handleTLSEvents ops now c0
              = (if SessionTicketsDisabled (config c)
                    \<or> fst (SendSessionTicket ops False (tls c)) = None
                 then handleTLSEvents ops now c'
                 else Some (fst (SendSessionTicket ops False (tls c)), c')))
      \<and> (\<forall>now' e'. Kind e' = QUICHandshakeDone \<longrightarrow>
            tls (conn_of (handleTLSEvent ops now' e' c'))
              = (if SessionTicketsDisabled (config c) then tls c'
                 else snd (SendSessionTicket ops False (tls c')))
            \<and> calls (conn_of (handleTLSEvent ops now' e' c'))
              = calls c' @ (if SessionTicketsDisabled (config c) then []
                            else [SendSessionTicketCall False]))"
proof -
  define c' where "c' = conn_of (handleTLSEvent ops now e c)"
  have th: "testHooks (confirmHandshake t x) = testHooks x" for t and x :: "('a, 'b, 'c) Conn"
    by (simp add: confirmHandshake_def split: option.splits)
  note unf = handleTLSEvent_def kind_defs Let_def sendSessionTicket_def confirmHandshake_frame th
  have sw: "handleTLSEvent ops now e c = Continue c'
      \<or> (\<exists>err. handleTLSEvent ops now e c = Return (Some err) c'
            \<and> fst (SendSessionTicket ops False (tls c)) = Some err)"
    using assms unfolding c'_def
    by (auto simp: unf split: prod.splits option.splits)
  have fl: "handshakeConfirmed c' = Some (case handshakeConfirmed c of None \<Rightarrow> now | Some t \<Rightarrow> t)"
    using assms unfolding c'_def
    by (auto simp: unf split: prod.splits option.splits)
  have cl: "calls c' = calls c @ (if SessionTicketsDisabled (config c) then []
                               else [SendSessionTicketCall False])"
    using assms unfolding c'_def
    by (auto simp: unf split: prod.splits option.splits)
  have later1: "handshakeConfirmed (conn_of (handleTLSEvent ops now' e' c')) = handshakeConfirmed c'"
    for now' e'
    using handleTLSEvent_confirmed [of c' _ ops now' e'] fl by simp
  have later2: "handleTLSEvents ops now' c' = Some r \<Longrightarrow> handshakeConfirmed (snd r) = handshakeConfirmed c'"
    for now' r
    using handleTLSEvents_confirmed [of ops now' c' r] fl by simp
  have en: "tls c' = (if SessionTicketsDisabled (config c) then tls c
                  else snd (SendSessionTicket ops False (tls c)))"
    using assms unfolding c'_def
    by (auto simp: unf split: prod.splits option.splits)
  have cont: "handleTLSEvent ops now e c = Continue c'
            \<longleftrightarrow> SessionTicketsDisabled (config c)
                \<or> fst (SendSessionTicket ops False (tls c)) = None"
    using assms unfolding c'_def
    by (auto simp: unf split: prod.splits option.splits)
  have ret: "handleTLSEvent ops now e c = Return (Some err) c'
            \<longleftrightarrow> \<not> SessionTicketsDisabled (config c)
                \<and> fst (SendSessionTicket ops False (tls c)) = Some err" for err
    using assms unfolding c'_def
    by (auto simp: unf split: prod.splits option.splits)
  have fr: "side c' = side c \<and> config c' = config c \<and> testHooks c' = testHooks c
      \<and> wkeys c' = wkeys c \<and> rkeys c' = rkeys c \<and> crypto c' = crypto c"
    using assms unfolding c'_def
    by (auto simp: unf split: prod.splits option.splits)
  have lp: "handleTLSEvents ops now c0
              = (if SessionTicketsDisabled (config c)
                    \<or> fst (SendSessionTicket ops False (tls c)) = None
                 then handleTLSEvents ops now c'
                 else Some (fst (SendSessionTicket ops False (tls c)), c'))"
    if ne: "nextEvent ops c0 = (e, c)" for c0
  proof (cases "SessionTicketsDisabled (config c)
      \<or> fst (SendSessionTicket ops False (tls c)) = None")
    case True
    with cont have "iteration ops now c0 = Continue c'"
      using ne by (simp add: iteration_def)
    from handleTLSEvents_Continue [OF this] True show ?thesis
      by simp
  next
    case False
    then obtain err where er: "fst (SendSessionTicket ops False (tls c)) = Some err"
      and nd: "\<not> SessionTicketsDisabled (config c)" by auto
    with ret [of err] have "iteration ops now c0 = Return (Some err) c'"
      using ne by (simp add: iteration_def)
    from handleTLSEvents_Return [OF this] er nd False show ?thesis by simp
  qed
  have rec: "tls (conn_of (handleTLSEvent ops now' e' c'))
              = (if SessionTicketsDisabled (config c) then tls c'
                 else snd (SendSessionTicket ops False (tls c')))
            \<and> calls (conn_of (handleTLSEvent ops now' e' c'))
              = calls c' @ (if SessionTicketsDisabled (config c) then []
                            else [SendSessionTicketCall False])"
    if "Kind e' = QUICHandshakeDone" for now' e'
    using that fr assms(1)
    by (auto simp: unf split: prod.splits option.splits)
  from sw fl cl later1 later2 en cont ret fr lp rec show ?thesis
    by (intro exI [of _ c']) blast
qed


theorem handshakeDone_server_witness:
  "handshakeConfirmed (conn_of (handleTLSEvent scriptOps 7 (event QUICHandshakeDone 0 [])
       (scriptConn serverSide False []))) = Some 7
   \<and> calls (conn_of (handleTLSEvent scriptOps 7 (event QUICHandshakeDone 0 [])
       (scriptConn serverSide False []))) = [SendSessionTicketCall False]
   \<and> calls (conn_of (handleTLSEvent scriptOps 7 (event QUICHandshakeDone 0 [])
       (scriptConn serverSide True []))) = []
   \<and> tls (conn_of (handleTLSEvent recordingOps 7 (event QUICHandshakeDone 0 [])
       (recordingConn serverSide False ([], [], 0)))) = ([], [], 1)
   \<and> tls (conn_of (handleTLSEvent recordingOps 7 (event QUICHandshakeDone 0 [])
       (recordingConn serverSide True ([], [], 0)))) = ([], [], 0)
   \<and> handleTLSEvents recordingOps 7 (recordingConn serverSide False
         ([event QUICHandshakeDone 0 [], event QUICHandshakeDone 0 []], [], 0))
      = Some (Some (ErrOther ''tls: SendSessionTicket called multiple times''),
          (recordingConn serverSide False ([], [], 2))
            \<lparr>handshakeConfirmed := Some 7,
             calls := [SendSessionTicketCall False, SendSessionTicketCall False]\<rparr>)"
proof -
  have h1: "side (scriptConn serverSide d []) = serverSide" for d
    by (simp add: scriptConn_def)
  have h2: "Kind (event QUICHandshakeDone 0 []) = QUICHandshakeDone"
    by (simp add: event_def)
  have cf: "handshakeConfirmed (scriptConn serverSide d []) = None
      \<and> calls (scriptConn serverSide d []) = []
      \<and> SessionTicketsDisabled (config (scriptConn serverSide d [])) = d" for d
    by (simp add: scriptConn_def)
  from handshakeDone_server [OF h1 [of False] h2, of scriptOps 7] cf [of False]
  have a: "handshakeConfirmed (conn_of (handleTLSEvent scriptOps 7 (event QUICHandshakeDone 0 [])
       (scriptConn serverSide False []))) = Some 7
     \<and> calls (conn_of (handleTLSEvent scriptOps 7 (event QUICHandshakeDone 0 [])
       (scriptConn serverSide False []))) = [SendSessionTicketCall False]"
    by auto
  from handshakeDone_server [OF h1 [of True] h2, of scriptOps 7] cf [of True]
  have b: "calls (conn_of (handleTLSEvent scriptOps 7 (event QUICHandshakeDone 0 [])
       (scriptConn serverSide True []))) = []"
    by auto
  have r1: "side (recordingConn serverSide d t) = serverSide" for d t
    by (simp add: recordingConn_def)
  have rc: "SessionTicketsDisabled (config (recordingConn serverSide d t)) = d
      \<and> tls (recordingConn serverSide d t) = t" for d t
    by (simp add: recordingConn_def)
  have st: "SendSessionTicket recordingOps False ([], [], 0) = (None, ([], [], 1))"
    by (simp add: recordingOps_def)
  from handshakeDone_server [OF r1 [of False "([], [], 0)"] h2, of recordingOps 7]
    rc [of False "([], [], 0)"] st
  have c: "tls (conn_of (handleTLSEvent recordingOps 7 (event QUICHandshakeDone 0 [])
       (recordingConn serverSide False ([], [], 0)))) = ([], [], 1)"
    by auto
  from handshakeDone_server [OF r1 [of True "([], [], 0)"] h2, of recordingOps 7]
    rc [of True "([], [], 0)"]
  have d: "tls (conn_of (handleTLSEvent recordingOps 7 (event QUICHandshakeDone 0 [])
       (recordingConn serverSide True ([], [], 0)))) = ([], [], 0)"
    by auto
  have e: "handleTLSEvents recordingOps 7 (recordingConn serverSide False
         ([event QUICHandshakeDone 0 [], event QUICHandshakeDone 0 []], [], 0))
      = Some (Some (ErrOther ''tls: SendSessionTicket called multiple times''),
          (recordingConn serverSide False ([], [], 2))
            \<lparr>handshakeConfirmed := Some 7,
             calls := [SendSessionTicketCall False, SendSessionTicketCall False]\<rparr>)"
    by (simp add: handleTLSEvents.simps iteration_def nextEvent_def handleTLSEvent_def
        confirmHandshake_def sendSessionTicket_def recordingOps_def recordingConn_def
        event_def kind_defs)
  from a b c d e show ?thesis by simp
qed

subsection \<open>Events at an unrecognized encryption level\<close>

lemma spaceForLevel_unknown:
  "level \<notin> knownLevels \<Longrightarrow> spaceForLevel level = Inl (ErrLevel level)"
  by (simp add: spaceForLevel_def knownLevels_def)

text \<open>
  Claim C4. When, after \<open>n\<close> events handled without error, the engine reports an event of
  kind \<^verbatim>\<open>QUICSetReadSecret\<close>, \<^verbatim>\<open>QUICSetWriteSecret\<close> or \<^verbatim>\<open>QUICWriteData\<close> at a level that
  is not Initial, Handshake or Application, the loop returns the level error at once. The
  connection it leaves is the one the \<open>n\<close> earlier events produced: no key slot and no
  byte stream is changed for the failing event.
\<close>

theorem unrecognized_level:
  assumes "iterations ops now n c0 = Some c1"
    and "nextEvent ops c1 = (e, c2)"
    and "Kind e \<in> {QUICSetReadSecret, QUICSetWriteSecret, QUICWriteData}"
    and "Level e \<notin> knownLevels"
  shows "handleTLSEvent ops now e c2 = Return (Some (ErrLevel (Level e))) c2
    \<and> handleTLSEvents ops now c0 = Some (Some (ErrLevel (Level e)), c2)
    \<and> wkeys c2 = wkeys c1 \<and> rkeys c2 = rkeys c1 \<and> crypto c2 = crypto c1
    \<and> handshakeConfirmed c2 = handshakeConfirmed c1
    \<and> calls c2 = calls c1 @ (if testHooks c1 then [TestHookTLSEvent e] else [])"
proof -
  have sw: "handleTLSEvent ops now e c2 = Return (Some (ErrLevel (Level e))) c2"
    using assms(3) spaceForLevel_unknown [OF assms(4)]
    by (auto simp: handleTLSEvent_def tlsKey_def kind_defs)
  then have "iteration ops now c1 = Return (Some (ErrLevel (Level e))) c2"
    using assms(2) by (simp add: iteration_def)
  then have "handleTLSEvents ops now c1 = Some (Some (ErrLevel (Level e)), c2)"
    by (rule handleTLSEvents_Return)
  with iterations_handleTLSEvents [OF assms(1)]
  have "handleTLSEvents ops now c0 = Some (Some (ErrLevel (Level e)), c2)" by simp
  with sw nextEvent_frame [OF assms(2)] show ?thesis by simp
qed

theorem unrecognized_level_witness:
  "handleTLSEvents scriptOps 7 (scriptConn clientSide False
       [event QUICWriteData QUICEncryptionLevelHandshake [1, 2],
        event QUICSetReadSecret QUICEncryptionLevelEarly [3]])
     = Some (Some (ErrLevel QUICEncryptionLevelEarly),
         (scriptConn clientSide False [])
           \<lparr>crypto := (\<lambda>space. emptyStream)(handshakeSpace := emptyStream\<lparr>out := [1, 2]\<rparr>)\<rparr>)"
proof -
  let ?c0 = "scriptConn clientSide False
       [event QUICWriteData QUICEncryptionLevelHandshake [1, 2],
        event QUICSetReadSecret QUICEncryptionLevelEarly [3]]"
  let ?c1 = "(scriptConn clientSide False [event QUICSetReadSecret QUICEncryptionLevelEarly [3]])
           \<lparr>crypto := (\<lambda>space. emptyStream)(handshakeSpace := emptyStream\<lparr>out := [1, 2]\<rparr>)\<rparr>"
  let ?c2 = "(scriptConn clientSide False [])
           \<lparr>crypto := (\<lambda>space. emptyStream)(handshakeSpace := emptyStream\<lparr>out := [1, 2]\<rparr>)\<rparr>"
  have h1: "iterations scriptOps 7 (Suc 0) ?c0 = Some ?c1"
    by (simp add: iteration_def nextEvent_def handleTLSEvent_def script_defs kind_defs
        level_defs space_defs spaceForLevel_def cryptoStream_write_def)
  have h2: "nextEvent scriptOps ?c1 = (event QUICSetReadSecret QUICEncryptionLevelEarly [3], ?c2)"
    by (simp add: nextEvent_def scriptOps_def scriptConn_def)
  have h3: "Kind (event QUICSetReadSecret QUICEncryptionLevelEarly [3])
      \<in> {QUICSetReadSecret, QUICSetWriteSecret, QUICWriteData}"
    by (simp add: event_def)
  have h4: "Level (event QUICSetReadSecret QUICEncryptionLevelEarly [3]) \<notin> knownLevels"
    by (simp add: event_def knownLevels_def level_defs)
  from unrecognized_level [OF h1 h2 h3 h4] show ?thesis
    by (simp add: event_def)
qed

subsection \<open>Installing secrets\<close>

text \<open>
  Claim C1 says that a secret for a slot that already holds keys is refused with an
  error. The code assigns to the slot without looking at it: with two
  \<^verbatim>\<open>QUICSetReadSecret\<close> events at the Handshake level, the slot holds the keys of the
  first secret after one iteration, and the loop ends without error with the keys of
  the second secret in the slot.
\<close>

theorem install_overwrites_counterexample:
  "iterations scriptOps 7 (Suc 0)
      (scriptConn clientSide False
        [event QUICSetReadSecret QUICEncryptionLevelHandshake [1],
         event QUICSetReadSecret QUICEncryptionLevelHandshake [2]])
     = Some ((scriptConn clientSide False [event QUICSetReadSecret QUICEncryptionLevelHandshake [2]])
         \<lparr>rkeys := (rkeys (scriptConn clientSide False []))(handshakeSpace := (0x1301, [1]))\<rparr>)
   \<and> handleTLSEvents scriptOps 7
      (scriptConn clientSide False
        [event QUICSetReadSecret QUICEncryptionLevelHandshake [1],
         event QUICSetReadSecret QUICEncryptionLevelHandshake [2]])
     = Some (None, (scriptConn clientSide False [])
         \<lparr>rkeys := (rkeys (scriptConn clientSide False []))(handshakeSpace := (0x1301, [2]))\<rparr>)"
  by (simp add: handleTLSEvents.simps iteration_def nextEvent_def handleTLSEvent_def
      tlsKey_def spaceForLevel_def script_defs kind_defs level_defs space_defs)

text \<open>
  Claim C1, amended. An event of kind \<^verbatim>\<open>QUICSetReadSecret\<close> (\<^verbatim>\<open>QUICSetWriteSecret\<close>) at
  a recognized level, for which \<^verbatim>\<open>newKeys\<close> derives keys, stores these keys in the read
  (write) slot of the level's number space whatever the slot held, leaves every other
  slot as it was, and the loop goes on. The switch returns an error only when the level
  is not recognized or \<^verbatim>\<open>newKeys\<close> fails, and then no slot is changed.
\<close>

theorem secret_event_installs:
  assumes "Kind e = QUICSetReadSecret \<or> Kind e = QUICSetWriteSecret"
  shows "(\<forall>space k. spaceForLevel (Level e) = Inr space \<and> newKeys ops (Suite e) (Data e) = Inr k \<longrightarrow>
            (\<exists>c'. handleTLSEvent ops now e c = Continue c'
               \<and> (if Kind e = QUICSetReadSecret
                   then rkeys c' = (rkeys c)(space := k) \<and> wkeys c' = wkeys c
                   else wkeys c' = (wkeys c)(space := k) \<and> rkeys c' = rkeys c)))
    \<and> (\<forall>err. spaceForLevel (Level e) = Inl err
            \<or> (\<exists>space. spaceForLevel (Level e) = Inr space
                  \<and> newKeys ops (Suite e) (Data e) = Inl err) \<longrightarrow>
            handleTLSEvent ops now e c = Return (Some err) c)"
  using assms by (auto simp: handleTLSEvent_def tlsKey_def kind_defs)

theorem secret_event_installs_witness:
  "(\<exists>c'. handleTLSEvent scriptOps 7 (event QUICSetWriteSecret QUICEncryptionLevelApplication [9])
        (scriptConn clientSide False []) = Continue c'
      \<and> wkeys c' = (wkeys (scriptConn clientSide False []))(appDataSpace := (0x1301, [9]))
      \<and> rkeys c' = rkeys (scriptConn clientSide False []))
   \<and> handleTLSEvent scriptOps 7 (event QUICSetWriteSecret QUICEncryptionLevelEarly [9])
        (scriptConn clientSide False [])
      = Return (Some (ErrLevel QUICEncryptionLevelEarly)) (scriptConn clientSide False [])"
proof -
  have h: "Kind (event QUICSetWriteSecret l d) = QUICSetReadSecret
      \<or> Kind (event QUICSetWriteSecret l d) = QUICSetWriteSecret" for l d
    by (simp add: event_def)
  have nr: "Kind (event QUICSetWriteSecret l d) \<noteq> QUICSetReadSecret" for l d
    by (simp add: event_def kind_defs)
  have ok: "spaceForLevel (Level (event QUICSetWriteSecret QUICEncryptionLevelApplication [9]))
      = Inr appDataSpace
    \<and> newKeys scriptOps (Suite (event QUICSetWriteSecret QUICEncryptionLevelApplication [9]))
        (Data (event QUICSetWriteSecret QUICEncryptionLevelApplication [9])) = Inr (0x1301, [9])"
    by (simp add: event_def spaceForLevel_def level_defs scriptOps_def)
  have bad: "spaceForLevel (Level (event QUICSetWriteSecret QUICEncryptionLevelEarly [9]))
      = Inl (ErrLevel QUICEncryptionLevelEarly)"
    by (simp add: event_def spaceForLevel_def level_defs)
  from secret_event_installs [OF h, of QUICEncryptionLevelApplication "[9]" scriptOps 7
      "scriptConn clientSide False []"] ok nr
  have a: "\<exists>c'. handleTLSEvent scriptOps 7 (event QUICSetWriteSecret QUICEncryptionLevelApplication [9])
        (scriptConn clientSide False []) = Continue c'
      \<and> wkeys c' = (wkeys (scriptConn clientSide False []))(appDataSpace := (0x1301, [9]))
      \<and> rkeys c' = rkeys (scriptConn clientSide False [])"
    by auto
  from secret_event_installs [OF h, of QUICEncryptionLevelEarly "[9]" scriptOps 7
      "scriptConn clientSide False []"] bad
  have b: "handleTLSEvent scriptOps 7 (event QUICSetWriteSecret QUICEncryptionLevelEarly [9])
        (scriptConn clientSide False [])
      = Return (Some (ErrLevel QUICEncryptionLevelEarly)) (scriptConn clientSide False [])"
    by blast
  from a b show ?thesis by blast
qed

subsection \<open>The keys of the initial space\<close>

text \<open>
  \<^verbatim>\<open>startTLS\<close> first installs the keys of the initial space. It then returns the error
  of the engine's \<^verbatim>\<open>Start\<close>, or runs the loop, on the connection with these keys.
\<close>

lemma startTLS_after_install:
  "\<exists>t. startTLS ops now initialConnID params c
         = handleTLSEvents ops now ((installInitialKeys ops initialConnID c)\<lparr>tls := t\<rparr>)
       \<or> (\<exists>err. startTLS ops now initialConnID params c
             = Some (Some err, (installInitialKeys ops initialConnID c)\<lparr>tls := t\<rparr>))"
  by (auto simp: startTLS_def Let_def split: prod.splits option.splits)

text \<open>
  Claim C2. The keys that \<^verbatim>\<open>startTLS\<close> installs for the initial space are derived from
  the initial connection identifier. For a client connection and a server connection
  started with the same identifier, the client's write keys are the server's read keys
  and the client's read keys are the server's write keys.
\<close>

theorem initial_keys_symmetric:
  assumes "side cc = clientSide" and "side sc = serverSide"
  shows "wkeys (installInitialKeys ops initialConnID cc) initialSpace
      = rkeys (installInitialKeys ops initialConnID sc) initialSpace
    \<and> rkeys (installInitialKeys ops initialConnID cc) initialSpace
      = wkeys (installInitialKeys ops initialConnID sc) initialSpace"
  using assms by (simp add: installInitialKeys_def split: prod.splits)

theorem initial_keys_symmetric_witness:
  "wkeys (installInitialKeys scriptOps [4, 2] (scriptConn clientSide False [])) initialSpace
      = rkeys (installInitialKeys scriptOps [4, 2] (scriptConn serverSide False [])) initialSpace
    \<and> rkeys (installInitialKeys scriptOps [4, 2] (scriptConn clientSide False [])) initialSpace
      = wkeys (installInitialKeys scriptOps [4, 2] (scriptConn serverSide False [])) initialSpace
    \<and> startTLS scriptOps 7 [4, 2] [] (scriptConn clientSide False [])
      = Some (None, installInitialKeys scriptOps [4, 2] (scriptConn clientSide False []))
    \<and> startTLS scriptOps 7 [4, 2] [] (scriptConn serverSide False [])
      = Some (None, installInitialKeys scriptOps [4, 2] (scriptConn serverSide False []))
    \<and> wkeys (installInitialKeys scriptOps [4, 2] (scriptConn clientSide False [])) initialSpace
      = (1, [4, 2])"
proof -
  have h1: "side (scriptConn clientSide False []) = clientSide"
    and h2: "side (scriptConn serverSide False []) = serverSide"
    by (simp_all add: scriptConn_def)
  have st: "startTLS scriptOps 7 [4, 2] [] (scriptConn sd False [])
      = Some (None, installInitialKeys scriptOps [4, 2] (scriptConn sd False []))" for sd
    by (simp add: startTLS_def installInitialKeys_def handleTLSEvents.simps iteration_def
        nextEvent_def handleTLSEvent_def script_defs kind_defs)
  have w: "wkeys (installInitialKeys scriptOps [4, 2] (scriptConn clientSide False [])) initialSpace
      = (1, [4, 2])"
    by (simp add: installInitialKeys_def script_defs)
  from initial_keys_symmetric [OF h1 h2, of scriptOps "[4, 2]"] st w show ?thesis by simp
qed

subsection \<open>Termination of the loop\<close>

lemma handleTLSEvent_tls:
  "handleTLSEvent ops now e c = Continue c' \<Longrightarrow>
     tls c' = tls c \<or> tls c' = snd (SendSessionTicket ops False (tls c))"
  by (auto simp: handleTLSEvent_def confirmHandshake_def sendSessionTicket_def
      receiveTransportParameters_def Let_def
      split: if_splits sum.splits prod.splits option.splits)

lemma handleTLSEvent_NoEvent:
  "Kind e = QUICNoEvent \<Longrightarrow> handleTLSEvent ops now e c = Return None c"
  by (simp add: handleTLSEvent_def)

lemma handleTLSEvent_Return_error:
  "Kind e \<noteq> QUICNoEvent \<Longrightarrow> handleTLSEvent ops now e c = Return r c' \<Longrightarrow> \<exists>err. r = Some err"
  by (auto simp: handleTLSEvent_def Let_def
      split: if_splits sum.splits prod.splits option.splits)

lemma settles_drain:
  "settles ops n (tls c) \<Longrightarrow>
     \<exists>k ck e c1 err c'. k < n \<and> iterations ops now k c = Some ck \<and> nextEvent ops ck = (e, c1)
       \<and> handleTLSEvents ops now c = Some (err, c')
       \<and> handleTLSEvent ops now e c1 = Return err c'
       \<and> (err = None \<longleftrightarrow> Kind e = QUICNoEvent)"
proof (induction n arbitrary: c)
  case 0
  then show ?case by simp
next
  case (Suc n)
  obtain e c1 where ne: "nextEvent ops c = (e, c1)" by (cases "nextEvent ops c")
  note fr = nextEvent_frame [OF ne]
  show ?case
  proof (cases "handleTLSEvent ops now e c1")
    case (Return err c')
    then have it: "iteration ops now c = Return err c'"
      using ne by (simp add: iteration_def)
    have res: "handleTLSEvents ops now c = Some (err, c')"
      using it by (rule handleTLSEvents_Return)
    have "err = None \<longleftrightarrow> Kind e = QUICNoEvent"
      using Return handleTLSEvent_NoEvent [of e ops now c1]
        handleTLSEvent_Return_error [of e ops now c1 err c'] by auto
    with ne res Return have "0 < Suc n \<and> iterations ops now 0 c = Some c \<and> nextEvent ops c = (e, c1)
       \<and> handleTLSEvents ops now c = Some (err, c')
       \<and> handleTLSEvent ops now e c1 = Return err c'
       \<and> (err = None \<longleftrightarrow> Kind e = QUICNoEvent)"
      by simp
    then show ?thesis
      by (intro exI [of _ 0] exI [of _ c] exI [of _ e] exI [of _ c1] exI [of _ err] exI [of _ c'])
  next
    case (Continue c2)
    then have it: "iteration ops now c = Continue c2"
      using ne by (simp add: iteration_def)
    have notno: "Kind e \<noteq> QUICNoEvent"
      using Continue handleTLSEvent_NoEvent [of e ops now c1] by auto
    from Suc.prems fr notno
    have st: "settles ops n (tls c1) \<and> settles ops n (snd (SendSessionTicket ops False (tls c1)))"
      by (auto split: prod.splits)
    with handleTLSEvent_tls [OF Continue] have "settles ops n (tls c2)" by auto
    from Suc.IH [OF this] obtain k ck e' c1' err c' where
      k: "k < n" and its: "iterations ops now k c2 = Some ck" and ne': "nextEvent ops ck = (e', c1')"
      and res: "handleTLSEvents ops now c2 = Some (err, c')"
      and sw: "handleTLSEvent ops now e' c1' = Return err c'"
      and iff: "err = None \<longleftrightarrow> Kind e' = QUICNoEvent"
      by auto
    from its it have its': "iterations ops now (Suc k) c = Some ck" by simp
    from res handleTLSEvents_Continue [OF it]
    have res': "handleTLSEvents ops now c = Some (err, c')" by simp
    from k its' ne' res' sw iff
    have "Suc k < Suc n \<and> iterations ops now (Suc k) c = Some ck \<and> nextEvent ops ck = (e', c1')
       \<and> handleTLSEvents ops now c = Some (err, c')
       \<and> handleTLSEvent ops now e' c1' = Return err c'
       \<and> (err = None \<longleftrightarrow> Kind e' = QUICNoEvent)"
      by simp
    then show ?thesis
      by (intro exI [of _ "Suc k"] exI [of _ ck] exI [of _ e'] exI [of _ c1'] exI [of _ err]
          exI [of _ c'])
  qed
qed

text \<open>
  Claim C8. If the engine comes to rest within \<open>n\<close> calls of \<^verbatim>\<open>NextEvent\<close>, the loop
  returns after fewer than \<open>n\<close> iterations that fell out of the switch. It returns from
  the switch of its last event: without error exactly when that event is
  \<^verbatim>\<open>QUICNoEvent\<close>, and otherwise with the error that handling that event produced. The
  same holds for \<^verbatim>\<open>handleCrypto\<close>: it returns at once when the number space is unknown or
  the byte stream reports an error, and otherwise it returns what the loop returns,
  provided the engine comes to rest after the data it was fed.
\<close>

theorem drain_terminates:
  "(settles ops n (tls c) \<longrightarrow>
      (\<exists>k ck e c1 err c'. k < n \<and> iterations ops now k c = Some ck \<and> nextEvent ops ck = (e, c1)
         \<and> handleTLSEvents ops now c = Some (err, c')
         \<and> handleTLSEvent ops now e c1 = Return err c'
         \<and> (err = None \<longleftrightarrow> Kind e = QUICNoEvent)))
   \<and> ((\<forall>level s c1. levelForSpace space = Inr level \<longrightarrow>
          cryptoStream_handleCrypto off b (handleData ops level) (crypto c space) c = (None, s, c1) \<longrightarrow>
          settles ops n (tls c1)) \<longrightarrow>
      (\<exists>r. handleCrypto ops now space off b c = Some r
         \<and> (\<forall>level s c1. levelForSpace space = Inr level \<longrightarrow>
               cryptoStream_handleCrypto off b (handleData ops level) (crypto c space) c
                 = (None, s, c1) \<longrightarrow>
               handleTLSEvents ops now (c1\<lparr>crypto := (crypto c1)(space := s)\<rparr>) = Some r)))"
proof (intro conjI impI)
  assume "settles ops n (tls c)"
  then show "\<exists>k ck e c1 err c'. k < n \<and> iterations ops now k c = Some ck \<and> nextEvent ops ck = (e, c1)
         \<and> handleTLSEvents ops now c = Some (err, c')
         \<and> handleTLSEvent ops now e c1 = Return err c'
         \<and> (err = None \<longleftrightarrow> Kind e = QUICNoEvent)"
    by (rule settles_drain)
next
  assume pre: "\<forall>level s c1. levelForSpace space = Inr level \<longrightarrow>
          cryptoStream_handleCrypto off b (handleData ops level) (crypto c space) c = (None, s, c1) \<longrightarrow>
          settles ops n (tls c1)"
  show "\<exists>r. handleCrypto ops now space off b c = Some r
         \<and> (\<forall>level s c1. levelForSpace space = Inr level \<longrightarrow>
               cryptoStream_handleCrypto off b (handleData ops level) (crypto c space) c
                 = (None, s, c1) \<longrightarrow>
               handleTLSEvents ops now (c1\<lparr>crypto := (crypto c1)(space := s)\<rparr>) = Some r)"
  proof (cases "levelForSpace space")
    case (Inl err)
    then show ?thesis by (simp add: handleCrypto_def)
  next
    case (Inr level)
    obtain res s c1 where st:
      "cryptoStream_handleCrypto off b (handleData ops level) (crypto c space) c = (res, s, c1)"
      by (cases "cryptoStream_handleCrypto off b (handleData ops level) (crypto c space) c")
    show ?thesis
    proof (cases res)
      case None
      with pre Inr st have "settles ops n (tls (c1\<lparr>crypto := (crypto c1)(space := s)\<rparr>))"
        by simp
      from settles_drain [OF this, of now] obtain r where
        "handleTLSEvents ops now (c1\<lparr>crypto := (crypto c1)(space := s)\<rparr>) = Some r"
        by auto
      with Inr st None show ?thesis by (simp add: handleCrypto_def)
    next
      case (Some err)
      with Inr st show ?thesis by (simp add: handleCrypto_def)
    qed
  qed
qed

theorem drain_terminates_witness:
  "(\<exists>k ck e c1 err c'. k < 3
       \<and> iterations scriptOps 7 k (scriptConn serverSide False
            [event QUICWriteData QUICEncryptionLevelHandshake [5], event QUICHandshakeDone 0 []])
          = Some ck
       \<and> nextEvent scriptOps ck = (e, c1)
       \<and> handleTLSEvents scriptOps 7 (scriptConn serverSide False
            [event QUICWriteData QUICEncryptionLevelHandshake [5], event QUICHandshakeDone 0 []])
          = Some (err, c')
       \<and> handleTLSEvent scriptOps 7 e c1 = Return err c'
       \<and> (err = None \<longleftrightarrow> Kind e = QUICNoEvent))
   \<and> (\<exists>r. handleCrypto scriptOps 7 handshakeSpace 0 [1, 2] (scriptConn serverSide False
            [event QUICWriteData QUICEncryptionLevelHandshake [5], event QUICHandshakeDone 0 []])
          = Some r)
   \<and> handleTLSEvents scriptOps 7 (scriptConn serverSide False
            [event QUICWriteData QUICEncryptionLevelHandshake [5], event QUICHandshakeDone 0 []])
      = Some (None, (scriptConn serverSide False [])
          \<lparr>crypto := (crypto (scriptConn serverSide False []))
             (handshakeSpace := emptyStream\<lparr>out := [5]\<rparr>),
           handshakeConfirmed := Some 7, calls := [SendSessionTicketCall False]\<rparr>)"
proof -
  let ?evs = "[event QUICWriteData QUICEncryptionLevelHandshake [5], event QUICHandshakeDone 0 []]"
  let ?c = "scriptConn serverSide False ?evs"
  have three: "(3::nat) = Suc (Suc (Suc 0))" by simp
  have st: "settles scriptOps 3 ?evs"
    unfolding three by (simp add: script_defs kind_defs)
  have h1: "settles scriptOps 3 (tls ?c)"
    using st by (simp add: scriptConn_def)
  have h2: "\<forall>level s c1. levelForSpace handshakeSpace = Inr level \<longrightarrow>
      cryptoStream_handleCrypto 0 [1, 2] (handleData scriptOps level) (crypto ?c handshakeSpace) ?c
        = (None, s, c1) \<longrightarrow> settles scriptOps 3 (tls c1)"
    using st
    by (auto simp: cryptoStream_handleCrypto_def handleData_def scriptOps_def scriptConn_def
        Let_def split: if_splits prod.splits option.splits)
  have run: "handleTLSEvents scriptOps 7 ?c
      = Some (None, (scriptConn serverSide False [])
          \<lparr>crypto := (crypto (scriptConn serverSide False []))
             (handshakeSpace := emptyStream\<lparr>out := [5]\<rparr>),
           handshakeConfirmed := Some 7, calls := [SendSessionTicketCall False]\<rparr>)"
    by (simp add: handleTLSEvents.simps iteration_def nextEvent_def handleTLSEvent_def
        spaceForLevel_def cryptoStream_write_def confirmHandshake_def sendSessionTicket_def
        script_defs kind_defs level_defs space_defs)
  from drain_terminates [of scriptOps 3 ?c 7 handshakeSpace 0 "[1, 2]"] h1 h2 run
  show ?thesis by blast
qed

subsection \<open>Inbound handshake bytes\<close>

text \<open>What the reorder buffer stores, offset by offset.\<close>

lemma stored_insertAt:
  "stored (insertAt off b buf) i =
     (if off \<le> i \<and> i < off + length b then Some (b ! (i - off)) else stored buf i)"
  by (auto simp: stored_def insertAt_def Let_def nth_append min_def)

lemma contiguous_nth:
  "j < length (contiguous buf start) \<Longrightarrow>
     stored buf (start + j) = Some (contiguous buf start ! j)"
proof -
  assume j: "j < length (contiguous buf start)"
  let ?P = "\<lambda>x::byte option. x \<noteq> None"
  let ?xs = "drop start buf"
  from j have jl: "j < length (takeWhile ?P ?xs)" by (simp add: contiguous_def)
  then have jx: "j < length ?xs"
    using length_takeWhile_le [of ?P ?xs] by linarith
  from jl have eq: "takeWhile ?P ?xs ! j = ?xs ! j" by (rule takeWhile_nth)
  from jl have "takeWhile ?P ?xs ! j \<in> set (takeWhile ?P ?xs)" by simp
  then have "?P (takeWhile ?P ?xs ! j)" by (rule set_takeWhileD [THEN conjunct2])
  with eq have ne: "?xs ! j \<noteq> None" by simp
  from jx have "start + j < length buf" by simp
  then have st: "stored buf (start + j) = ?xs ! j"
    by (simp add: stored_def)
  from jl eq have "contiguous buf start ! j = the (?xs ! j)"
    by (simp add: contiguous_def)
  with st ne show ?thesis by auto
qed

lemma contiguous_end:
  "stored buf (start + length (contiguous buf start)) = None"
proof -
  let ?P = "\<lambda>x::byte option. x \<noteq> None"
  let ?xs = "drop start buf"
  let ?n = "length (takeWhile ?P ?xs)"
  have n: "length (contiguous buf start) = ?n" by (simp add: contiguous_def)
  show ?thesis
  proof (cases "?n < length ?xs")
    case True
    then have "\<not> ?P (?xs ! ?n)" by (rule nth_length_takeWhile)
    moreover from True have "start + ?n < length buf" by simp
    then have "stored buf (start + ?n) = ?xs ! ?n"
      by (simp add: stored_def)
    ultimately show ?thesis using n by simp
  next
    case False
    then have "length buf \<le> start + ?n" by simp
    then show ?thesis using n by (simp add: stored_def)
  qed
qed

lemma slice_nth:
  assumes "base \<le> off" and "off + length b \<le> base + length D"
    and "b = take (length b) (drop (off - base) D)"
    and "off \<le> i" and "i < off + length b"
  shows "b ! (i - off) = D ! (i - base)"
proof -
  from assms(4,5) have il: "i - off < length b" by simp
  have "b ! (i - off) = take (length b) (drop (off - base) D) ! (i - off)"
    using assms(3) by simp
  also have "\<dots> = drop (off - base) D ! (i - off)"
    using il by simp
  also have "\<dots> = D ! ((off - base) + (i - off))"
    using assms(1,2,4,5) by simp
  also have "(off - base) + (i - off) = i - base"
    using assms(1,4) by simp
  finally show ?thesis .
qed

lemma chunk_is_slice:
  assumes "base \<le> start"
    and "\<And>j. j < length chunk \<Longrightarrow>
      start + j < base + length D \<and> chunk ! j = D ! (start + j - base)"
  shows "chunk = take (length chunk) (drop (start - base) D)"
proof (cases "chunk = []")
  case True
  then show ?thesis by simp
next
  case False
  then have pos: "0 < length chunk" by simp
  then have "length chunk - 1 < length chunk" by simp
  from assms(2) [OF this] pos have le: "start + length chunk \<le> base + length D"
    by linarith
  show ?thesis
  proof (rule nth_equalityI)
    from le assms(1) show "length chunk = length (take (length chunk) (drop (start - base) D))"
      by simp
    fix j
    assume j: "j < length chunk"
    with le assms(1) have "take (length chunk) (drop (start - base) D) ! j = D ! ((start - base) + j)"
      by simp
    also from assms(1) have "(start - base) + j = start + j - base" by simp
    finally show "chunk ! j = take (length chunk) (drop (start - base) D) ! j"
      using assms(2) [OF j] by simp
  qed
qed

lemma cryptoStream_handleCrypto_step:
  assumes inv: "inboundOf D base s"
    and sl: "base \<le> off" "off + length b \<le> base + length D"
      "b = take (length b) (drop (off - base) D)"
    and run: "cryptoStream_handleCrypto off b f s st = (None, s', st')"
  shows "inboundOf D base s'
    \<and> instart s \<le> instart s'
    \<and> (if instart s' = instart s then st' = st
        else f (take (instart s' - instart s) (drop (instart s - base) D)) st = (None, st'))
    \<and> (\<forall>i. stored (inbuf s') i
          = (if off \<le> i \<and> i < off + length b then Some (b ! (i - off)) else stored (inbuf s) i))
    \<and> out s' = out s"
proof -
  define buf' where "buf' = insertAt off b (inbuf s)"
  define chunk where "chunk = contiguous buf' (instart s)"
  have st': "stored buf' i
      = (if off \<le> i \<and> i < off + length b then Some (b ! (i - off)) else stored (inbuf s) i)" for i
    unfolding buf'_def by (rule stored_insertAt)
  from inv have b1: "base \<le> instart s" and b2: "instart s \<le> base + length D"
    and agree: "\<And>i. base \<le> i \<Longrightarrow> stored (inbuf s) i = None
        \<or> (i < base + length D \<and> stored (inbuf s) i = Some (D ! (i - base)))"
    and filled: "\<And>i. base \<le> i \<Longrightarrow> i < instart s \<Longrightarrow> stored (inbuf s) i \<noteq> None"
    by (auto simp: inboundOf_def)
  have agree': "stored buf' i = None
      \<or> (i < base + length D \<and> stored buf' i = Some (D ! (i - base)))" if "base \<le> i" for i
  proof (cases "off \<le> i \<and> i < off + length b")
    case True
    then have "b ! (i - off) = D ! (i - base)"
      using slice_nth [OF sl] by blast
    with True sl(2) show ?thesis by (simp add: st')
  next
    case False
    with agree [OF that] show ?thesis by (auto simp: st')
  qed
  have filled': "stored buf' i \<noteq> None" if "base \<le> i" "i < instart s" for i
    using filled [OF that] by (simp add: st')
  have cn: "stored buf' (instart s + j) = Some (chunk ! j)" if "j < length chunk" for j
    using that unfolding chunk_def by (rule contiguous_nth)
  have ce: "stored buf' (instart s + length chunk) = None"
    unfolding chunk_def by (rule contiguous_end)
  have inD: "instart s + j < base + length D \<and> chunk ! j = D ! (instart s + j - base)"
    if "j < length chunk" for j
    using cn [OF that] agree' [of "instart s + j"] b1 by auto
  have slice: "chunk = take (length chunk) (drop (instart s - base) D)"
    using b1 inD by (rule chunk_is_slice)
  have le: "instart s + length chunk \<le> base + length D"
  proof (cases chunk)
    case Nil
    with b2 show ?thesis by simp
  next
    case (Cons x xs)
    then have pos: "0 < length chunk" by simp
    then have "length chunk - 1 < length chunk" by simp
    from inD [OF this] pos show ?thesis by linarith
  qed
  have nc: "\<not> conflicts (inbuf s) off b"
    using run by (auto simp: cryptoStream_handleCrypto_def)
  show ?thesis
  proof (cases "chunk = []")
    case True
    with run nc have res: "s' = s\<lparr>inbuf := buf'\<rparr>" "st' = st"
      by (auto simp: cryptoStream_handleCrypto_def Let_def buf'_def chunk_def)
    have "inboundOf D base s'"
      using b1 b2 agree' filled' ce True by (simp add: inboundOf_def res)
    with res st' show ?thesis by simp
  next
    case False
    with run nc have fr: "f chunk st = (None, st')"
      and res: "s' = s\<lparr>inbuf := buf', instart := instart s + length chunk\<rparr>"
      by (auto simp: cryptoStream_handleCrypto_def Let_def buf'_def chunk_def
          split: prod.splits option.splits)
    have fill2: "stored buf' i \<noteq> None" if "base \<le> i" "i < instart s + length chunk" for i
    proof (cases "i < instart s")
      case True
      with that show ?thesis using filled' by simp
    next
      case False
      with that have "i - instart s < length chunk" by simp
      from cn [OF this] False show ?thesis by simp
    qed
    have "inboundOf D base s'"
      using b1 le agree' fill2 ce by (simp add: inboundOf_def res)
    moreover from False have "instart s' \<noteq> instart s" by (simp add: res)
    moreover have "f (take (instart s' - instart s) (drop (instart s - base) D)) st = (None, st')"
      using fr slice by (simp add: res)
    ultimately show ?thesis using res st' by simp
  qed
qed

text \<open>
  The drain loop feeds nothing to the engine and leaves the inbound side of every stream
  alone.
\<close>

lemma fedBytes_append:
  "fedBytes level (xs @ ys) = fedBytes level xs @ fedBytes level ys"
  by (induction level xs rule: fedBytes.induct) simp_all

lemma handleTLSEvent_inbound:
  "fedBytes level (calls (conn_of (handleTLSEvent ops now e c))) = fedBytes level (calls c)
   \<and> inbuf (crypto (conn_of (handleTLSEvent ops now e c)) sp) = inbuf (crypto c sp)
   \<and> instart (crypto (conn_of (handleTLSEvent ops now e c)) sp) = instart (crypto c sp)"
  by (auto simp: handleTLSEvent_def confirmHandshake_def sendSessionTicket_def
      receiveTransportParameters_def cryptoStream_write_def fedBytes_append Let_def
      split: sum.splits prod.splits option.splits)

lemma iteration_inbound:
  "fedBytes level (calls (conn_of (iteration ops now c))) = fedBytes level (calls c)
   \<and> inbuf (crypto (conn_of (iteration ops now c)) sp) = inbuf (crypto c sp)
   \<and> instart (crypto (conn_of (iteration ops now c)) sp) = instart (crypto c sp)"
proof -
  obtain e c1 where ne: "nextEvent ops c = (e, c1)" by (cases "nextEvent ops c")
  from nextEvent_frame [OF ne]
  have "fedBytes level (calls c1) = fedBytes level (calls c)" and "crypto c1 = crypto c"
    by (simp_all add: fedBytes_append)
  with handleTLSEvent_inbound [of level ops now e c1 sp] ne show ?thesis
    by (simp add: iteration_def)
qed

lemma iterations_inbound:
  "iterations ops now n c = Some c' \<Longrightarrow>
     fedBytes level (calls c') = fedBytes level (calls c)
     \<and> inbuf (crypto c' sp) = inbuf (crypto c sp)
     \<and> instart (crypto c' sp) = instart (crypto c sp)"
proof (induction n arbitrary: c)
  case 0
  then show ?case by simp
next
  case (Suc n)
  then obtain c1 where it: "iteration ops now c = Continue c1"
    and rest: "iterations ops now n c1 = Some c'"
    by (auto split: step.splits)
  from iteration_inbound [of level ops now c sp] it Suc.IH [OF rest] show ?case by simp
qed

lemma handleTLSEvents_inbound:
  assumes "handleTLSEvents ops now c = Some (err, c')"
  shows "fedBytes level (calls c') = fedBytes level (calls c)
     \<and> inbuf (crypto c' sp) = inbuf (crypto c sp)
     \<and> instart (crypto c' sp) = instart (crypto c sp)"
proof -
  from handleTLSEvents_iterations [OF assms] obtain n cn where
    its: "iterations ops now n c = Some cn" and ret: "iteration ops now cn = Return err c'"
    by auto
  from iteration_inbound [of level ops now cn sp] ret iterations_inbound [OF its, of level sp]
  show ?thesis by simp
qed

lemma inboundOf_cong:
  "inbuf s = inbuf s' \<Longrightarrow> instart s = instart s' \<Longrightarrow> inboundOf D base s = inboundOf D base s'"
  by (simp add: inboundOf_def)

lemma handleCrypto_step:
  assumes lv: "levelForSpace space = Inr level"
    and inv: "inboundOf D base (crypto c space)"
    and sl: "base \<le> off" "off + length b \<le> base + length D"
      "b = take (length b) (drop (off - base) D)"
    and run: "handleCrypto ops now space off b c = Some (None, c')"
  shows "inboundOf D base (crypto c' space)
    \<and> instart (crypto c space) \<le> instart (crypto c' space)
    \<and> fedBytes level (calls c') = fedBytes level (calls c)
        @ take (instart (crypto c' space) - instart (crypto c space))
            (drop (instart (crypto c space) - base) D)
    \<and> (\<forall>i. stored (inbuf (crypto c' space)) i
          = (if off \<le> i \<and> i < off + length b then Some (b ! (i - off))
             else stored (inbuf (crypto c space)) i))"
proof -
  obtain res s c1 where st:
    "cryptoStream_handleCrypto off b (handleData ops level) (crypto c space) c = (res, s, c1)"
    by (cases "cryptoStream_handleCrypto off b (handleData ops level) (crypto c space) c")
  from run lv st have res: "res = None"
    by (cases res) (simp_all add: handleCrypto_def)
  with run lv st have dr:
    "handleTLSEvents ops now (c1\<lparr>crypto := (crypto c1)(space := s)\<rparr>) = Some (None, c')"
    by (simp add: handleCrypto_def)
  from st res have st': "cryptoStream_handleCrypto off b (handleData ops level) (crypto c space) c
      = (None, s, c1)" by simp
  note step = cryptoStream_handleCrypto_step [OF inv sl st']
  let ?chunk = "take (instart s - instart (crypto c space))
      (drop (instart (crypto c space) - base) D)"
  have fed1: "fedBytes level (calls c1) = fedBytes level (calls c) @ ?chunk"
  proof (cases "instart s = instart (crypto c space)")
    case True
    with step have "c1 = c" by simp
    with True show ?thesis by simp
  next
    case False
    with step have "handleData ops level ?chunk c = (None, c1)" by simp
    then have "calls c1 = calls c @ [HandleDataCall level ?chunk]"
      by (auto simp: handleData_def split: prod.splits)
    then show ?thesis by (simp add: fedBytes_append)
  qed
  from handleTLSEvents_inbound [OF dr, of level space]
  have fr: "fedBytes level (calls c') = fedBytes level (calls c1)"
    "inbuf (crypto c' space) = inbuf s" "instart (crypto c' space) = instart s"
    by simp_all
  from inboundOf_cong [OF fr(2,3)] step have "inboundOf D base (crypto c' space)" by simp
  with step fed1 fr show ?thesis by simp
qed

lemma deliverAll_inbound:
  assumes lv: "levelForSpace space = Inr level"
  shows "inboundOf D base (crypto c space) \<Longrightarrow>
     \<forall>(now, off, b) \<in> set ds. base \<le> off \<and> off + length b \<le> base + length D
        \<and> b = take (length b) (drop (off - base) D) \<Longrightarrow>
     deliverAll ops space ds c = Some c' \<Longrightarrow>
     inboundOf D base (crypto c' space)
     \<and> instart (crypto c space) \<le> instart (crypto c' space)
     \<and> fedBytes level (calls c') = fedBytes level (calls c)
         @ take (instart (crypto c' space) - instart (crypto c space))
             (drop (instart (crypto c space) - base) D)
     \<and> (\<forall>i. stored (inbuf (crypto c space)) i \<noteq> None
             \<or> (\<exists>(now, off, b) \<in> set ds. off \<le> i \<and> i < off + length b)
           \<longrightarrow> stored (inbuf (crypto c' space)) i \<noteq> None)"
proof (induction ds arbitrary: c)
  case Nil
  then show ?case by simp
next
  case (Cons d ds)
  obtain now off b where d: "d = (now, off, b)" by (cases d)
  from Cons.prems(3) d obtain c1 where
    h1: "handleCrypto ops now space off b c = Some (None, c1)"
    and rest: "deliverAll ops space ds c1 = Some c'"
    by (auto split: option.splits prod.splits)
  from Cons.prems(2) d have sl: "base \<le> off" "off + length b \<le> base + length D"
    "b = take (length b) (drop (off - base) D)"
    and sls: "\<forall>(now, off, b) \<in> set ds. base \<le> off \<and> off + length b \<le> base + length D
        \<and> b = take (length b) (drop (off - base) D)"
    by simp_all
  note s1 = handleCrypto_step [OF lv Cons.prems(1) sl h1]
  from s1 have inv1: "inboundOf D base (crypto c1 space)" by simp
  note s2 = Cons.IH [OF inv1 sls rest]
  let ?a = "instart (crypto c space)"
  let ?m = "instart (crypto c1 space)"
  let ?z = "instart (crypto c' space)"
  from Cons.prems(1) have ba: "base \<le> ?a" by (simp add: inboundOf_def)
  from s1 have am: "?a \<le> ?m" by simp
  from s2 have mz: "?m \<le> ?z" by simp
  have "take (?m - ?a) (drop (?a - base) D) @ take (?z - ?m) (drop (?m - base) D)
      = take (?z - ?a) (drop (?a - base) D)"
  proof -
    have "drop (?m - base) D = drop (?m - ?a) (drop (?a - base) D)"
      using ba am by simp
    moreover have "?z - ?a = (?m - ?a) + (?z - ?m)"
      using am mz by simp
    ultimately show ?thesis by (simp only: take_add)
  qed
  with s1 s2 have fed: "fedBytes level (calls c') = fedBytes level (calls c)
      @ take (?z - ?a) (drop (?a - base) D)"
    by simp
  have mono: "stored (inbuf (crypto c' space)) i \<noteq> None"
    if "stored (inbuf (crypto c space)) i \<noteq> None
       \<or> (\<exists>(now, off, b) \<in> set (d # ds). off \<le> i \<and> i < off + length b)" for i
  proof -
    from that d have "stored (inbuf (crypto c space)) i \<noteq> None
        \<or> (off \<le> i \<and> i < off + length b)
        \<or> (\<exists>(now, off, b) \<in> set ds. off \<le> i \<and> i < off + length b)"
      by auto
    moreover from s1 have "stored (inbuf (crypto c space)) i \<noteq> None
        \<or> (off \<le> i \<and> i < off + length b) \<Longrightarrow> stored (inbuf (crypto c1 space)) i \<noteq> None"
      by auto
    ultimately have "stored (inbuf (crypto c1 space)) i \<noteq> None
        \<or> (\<exists>(now, off, b) \<in> set ds. off \<le> i \<and> i < off + length b)"
      by blast
    with s2 show ?thesis by blast
  qed
  from s2 am mz fed mono show ?case by simp
qed

text \<open>
  Between two feeds the loop moves the engine only by \<^verbatim>\<open>NextEvent\<close> and
  \<^verbatim>\<open>SendSessionTicket(false)\<close>.
\<close>

lemma engineRun_snoc:
  "engineRun ops (xs @ [ticket]) t =
     (if ticket then snd (SendSessionTicket ops False (snd (NextEvent ops (engineRun ops xs t))))
      else snd (NextEvent ops (engineRun ops xs t)))"
  by (induction xs arbitrary: t) simp_all

lemma handleTLSEvent_engine:
  "tls (conn_of (handleTLSEvent ops now e c)) = tls c
   \<or> tls (conn_of (handleTLSEvent ops now e c)) = snd (SendSessionTicket ops False (tls c))"
  by (auto simp: handleTLSEvent_def confirmHandshake_def sendSessionTicket_def
      receiveTransportParameters_def Let_def
      split: sum.splits prod.splits option.splits)

lemma iteration_engine:
  "\<exists>ticket. tls (conn_of (iteration ops now c)) = engineRun ops [ticket] (tls c)"
proof -
  obtain e c1 where ne: "nextEvent ops c = (e, c1)" by (cases "nextEvent ops c")
  from nextEvent_frame [OF ne] have t1: "tls c1 = snd (NextEvent ops (tls c))" by simp
  from handleTLSEvent_engine [of ops now e c1] t1 ne
  have "tls (conn_of (iteration ops now c)) = engineRun ops [False] (tls c)
      \<or> tls (conn_of (iteration ops now c)) = engineRun ops [True] (tls c)"
    by (auto simp: iteration_def)
  then show ?thesis by blast
qed

lemma iterations_engine:
  "iterations ops now n c = Some c' \<Longrightarrow> \<exists>xs. tls c' = engineRun ops xs (tls c)"
proof (induction n arbitrary: c)
  case 0
  then have "tls c' = engineRun ops [] (tls c)" by simp
  then show ?case by blast
next
  case (Suc n)
  then obtain c1 where it: "iteration ops now c = Continue c1"
    and rest: "iterations ops now n c1 = Some c'"
    by (auto split: step.splits)
  from iteration_engine [of ops now c] it obtain ticket where
    t1: "tls c1 = engineRun ops [ticket] (tls c)" by auto
  from Suc.IH [OF rest] obtain xs where "tls c' = engineRun ops xs (tls c1)" by blast
  with t1 have "tls c' = engineRun ops (ticket # xs) (tls c)" by simp
  then show ?case by blast
qed

lemma handleTLSEvents_engine:
  assumes "handleTLSEvents ops now c = Some (err, c')"
  shows "\<exists>xs. tls c' = engineRun ops xs (tls c)"
proof -
  from handleTLSEvents_iterations [OF assms] obtain n cn where
    its: "iterations ops now n c = Some cn" and ret: "iteration ops now cn = Return err c'"
    by auto
  from iterations_engine [OF its] obtain xs where xs: "tls cn = engineRun ops xs (tls c)"
    by blast
  from iteration_engine [of ops now cn] ret obtain ticket where
    "tls c' = engineRun ops [ticket] (tls cn)" by auto
  with xs have "tls c' = engineRun ops (xs @ [ticket]) (tls c)"
    by (simp add: engineRun_snoc)
  then show ?thesis by blast
qed

lemma handleCrypto_engine:
  assumes lv: "levelForSpace space = Inr level"
    and inv: "inboundOf D base (crypto c space)"
    and sl: "base \<le> off" "off + length b \<le> base + length D"
      "b = take (length b) (drop (off - base) D)"
    and run: "handleCrypto ops now space off b c = Some (None, c')"
  shows "\<exists>t xs. tls c' = engineRun ops xs t
    \<and> (if instart (crypto c' space) = instart (crypto c space) then t = tls c
        else HandleData ops level
               (take (instart (crypto c' space) - instart (crypto c space))
                  (drop (instart (crypto c space) - base) D)) (tls c) = (None, t))"
proof -
  obtain res s c1 where st:
    "cryptoStream_handleCrypto off b (handleData ops level) (crypto c space) c = (res, s, c1)"
    by (cases "cryptoStream_handleCrypto off b (handleData ops level) (crypto c space) c")
  from run lv st have res: "res = None"
    by (cases res) (simp_all add: handleCrypto_def)
  with run lv st have dr:
    "handleTLSEvents ops now (c1\<lparr>crypto := (crypto c1)(space := s)\<rparr>) = Some (None, c')"
    by (simp add: handleCrypto_def)
  from st res have st': "cryptoStream_handleCrypto off b (handleData ops level) (crypto c space) c
      = (None, s, c1)" by simp
  note step = cryptoStream_handleCrypto_step [OF inv sl st']
  from handleTLSEvents_inbound [OF dr, of level space]
  have cur: "instart (crypto c' space) = instart s" by simp
  from handleTLSEvents_engine [OF dr] obtain xs where
    xs: "tls c' = engineRun ops xs (tls c1)" by auto
  let ?chunk = "take (instart s - instart (crypto c space))
      (drop (instart (crypto c space) - base) D)"
  have "if instart s = instart (crypto c space) then tls c1 = tls c
      else HandleData ops level ?chunk (tls c) = (None, tls c1)"
  proof (cases "instart s = instart (crypto c space)")
    case True
    with step have "c1 = c" by simp
    with True show ?thesis by simp
  next
    case False
    with step have "handleData ops level ?chunk c = (None, c1)" by simp
    then have "HandleData ops level ?chunk (tls c) = (None, tls c1)"
      by (auto simp: handleData_def split: prod.splits)
    with False show ?thesis by simp
  qed
  with xs cur show ?thesis by auto
qed

lemma deliverAll_append:
  "deliverAll ops space (ds1 @ ds2) c =
     (case deliverAll ops space ds1 c of
        None \<Rightarrow> None
      | Some c1 \<Rightarrow> deliverAll ops space ds2 c1)"
proof (induction ds1 arbitrary: c)
  case Nil
  then show ?case by simp
next
  case (Cons d ds1)
  obtain now off b where d: "d = (now, off, b)" by (cases d)
  show ?case
    using Cons.IH by (simp add: d split: option.splits prod.splits)
qed

lemmas run_defs = handleCrypto_def levelForSpace_def cryptoStream_handleCrypto_def
  insertAt_def contiguous_def stored_def handleData_def handleTLSEvents.simps iteration_def
  nextEvent_def handleTLSEvent_def recordingOps_def recordingConn_def emptyStream_def
  noEvent_def kind_defs level_defs space_defs

text \<open>
  Claim C7 says that the engine is fed exactly the data of the deliveries whenever their
  spans cover a range that begins at the cursor. Bytes that the stream had stored
  beyond that range are fed with them: after byte 9 was delivered at offset 2, the
  delivery of bytes 10 and 11 at offset 0, which covers the range from the cursor 0 to
  offset 2, feeds the engine the three bytes 10, 11 and 9.
\<close>

theorem buffered_bytes_counterexample:
  "handleCrypto recordingOps 1 initialSpace 2 [9] (recordingConn clientSide False ([], [], 0))
     = Some (None, (recordingConn clientSide False ([], [], 0))
         \<lparr>crypto := (crypto (recordingConn clientSide False ([], [], 0)))
            (initialSpace := emptyStream\<lparr>inbuf := [None, None, Some 9]\<rparr>)\<rparr>)
   \<and> handleCrypto recordingOps 2 initialSpace 0 [10, 11]
       ((recordingConn clientSide False ([], [], 0))
         \<lparr>crypto := (crypto (recordingConn clientSide False ([], [], 0)))
            (initialSpace := emptyStream\<lparr>inbuf := [None, None, Some 9]\<rparr>)\<rparr>)
     = Some (None, (recordingConn clientSide False ([], [10, 11, 9], 0))
         \<lparr>crypto := (crypto (recordingConn clientSide False ([], [], 0)))
            (initialSpace := emptyStream\<lparr>inbuf := [Some 10, Some 11, Some 9], instart := 3\<rparr>),
          calls := [HandleDataCall QUICEncryptionLevelInitial [10, 11, 9]]\<rparr>)
   \<and> [10, 11, 9] \<noteq> ([10, 11] :: bytes)"
  by (simp add: run_defs eval_nat_numeral Let_def)

text \<open>
  Claim C7, amended. Take a stream with nothing stored at or after its cursor, data \<open>D\<close>
  that begins at the cursor, and a sequence of calls of \<^verbatim>\<open>handleCrypto\<close> for the stream's
  number space that all return \<^verbatim>\<open>nil\<close>, each delivering a span of \<open>D\<close>, in any order and
  with any overlaps, the spans together covering \<open>D\<close>. Then the bytes given to the
  engine's \<^verbatim>\<open>HandleData\<close> at the level of that space, in the order of the calls, are
  exactly \<open>D\<close>, and the cursor ends after \<open>D\<close>. After every initial part of the sequence
  the bytes given so far are the part of \<open>D\<close> before the cursor: the engine gets the
  bytes in the order of their offsets, without a gap, and none twice. At each delivery
  the engine's \<^verbatim>\<open>HandleData\<close> is applied to the engine once, with the bytes of \<open>D\<close> from
  the old cursor to the new one, and returns \<^verbatim>\<open>nil\<close>, or it is not applied when the
  cursor stays; the loop that follows moves the engine only by \<^verbatim>\<open>NextEvent\<close> and
  \<^verbatim>\<open>SendSessionTicket(false)\<close>.
\<close>

theorem inbound_delivery_in_order:
  assumes lv: "levelForSpace space = Inr level"
    and fresh: "\<forall>i. instart (crypto c space) \<le> i \<longrightarrow> stored (inbuf (crypto c space)) i = None"
    and slices: "\<forall>(now, off, b) \<in> set ds.
        instart (crypto c space) \<le> off
        \<and> off + length b \<le> instart (crypto c space) + length D
        \<and> b = take (length b) (drop (off - instart (crypto c space)) D)"
    and cover: "\<forall>i < length D. \<exists>(now, off, b) \<in> set ds.
        off \<le> instart (crypto c space) + i \<and> instart (crypto c space) + i < off + length b"
    and run: "deliverAll ops space ds c = Some c'"
  shows "fedBytes level (calls c') = fedBytes level (calls c) @ D
    \<and> instart (crypto c' space) = instart (crypto c space) + length D
    \<and> (\<forall>ds1 ds2 c1. ds = ds1 @ ds2 \<longrightarrow> deliverAll ops space ds1 c = Some c1 \<longrightarrow>
          instart (crypto c space) \<le> instart (crypto c1 space)
          \<and> fedBytes level (calls c1) = fedBytes level (calls c)
              @ take (instart (crypto c1 space) - instart (crypto c space)) D)
    \<and> (\<forall>ds1 now off b ds2 c1. ds = ds1 @ (now, off, b) # ds2 \<longrightarrow>
          deliverAll ops space ds1 c = Some c1 \<longrightarrow>
          (\<exists>c2 t xs. handleCrypto ops now space off b c1 = Some (None, c2)
             \<and> deliverAll ops space (ds1 @ [(now, off, b)]) c = Some c2
             \<and> tls c2 = engineRun ops xs t
             \<and> (if instart (crypto c2 space) = instart (crypto c1 space) then t = tls c1
                 else HandleData ops level
                        (take (instart (crypto c2 space) - instart (crypto c1 space))
                           (drop (instart (crypto c1 space) - instart (crypto c space)) D))
                        (tls c1) = (None, t))))"
proof -
  let ?base = "instart (crypto c space)"
  have inv0: "inboundOf D ?base (crypto c space)"
    using fresh by (simp add: inboundOf_def)
  note fin = deliverAll_inbound [OF lv inv0 slices run]
  let ?z = "instart (crypto c' space)"
  from fin have invz: "inboundOf D ?base (crypto c' space)" by simp
  then have zb: "?base \<le> ?z" and zl: "?z \<le> ?base + length D"
    and zn: "stored (inbuf (crypto c' space)) ?z = None"
    by (simp_all add: inboundOf_def)
  have zeq: "?z = ?base + length D"
  proof (rule ccontr)
    assume "?z \<noteq> ?base + length D"
    with zb zl have lt: "?z - ?base < length D" by simp
    with cover have "\<exists>(now, off, b) \<in> set ds.
        off \<le> ?base + (?z - ?base) \<and> ?base + (?z - ?base) < off + length b"
      by blast
    with zb have "\<exists>(now, off, b) \<in> set ds. off \<le> ?z \<and> ?z < off + length b"
      by simp
    with fin have "stored (inbuf (crypto c' space)) ?z \<noteq> None" by blast
    with zn show False by simp
  qed
  with fin have fed: "fedBytes level (calls c') = fedBytes level (calls c) @ D" by simp
  have part: "inboundOf D ?base (crypto c1 space) \<and> ?base \<le> instart (crypto c1 space)
      \<and> fedBytes level (calls c1) = fedBytes level (calls c)
          @ take (instart (crypto c1 space) - ?base) D"
    if "ds = ds1 @ ds2" and "deliverAll ops space ds1 c = Some c1" for ds1 ds2 c1
  proof -
    from slices that(1) have "\<forall>(now, off, b) \<in> set ds1.
        ?base \<le> off \<and> off + length b \<le> ?base + length D
        \<and> b = take (length b) (drop (off - ?base) D)"
      by auto
    from deliverAll_inbound [OF lv inv0 this that(2)] show ?thesis by simp
  qed
  have pre: "?base \<le> instart (crypto c1 space)
      \<and> fedBytes level (calls c1) = fedBytes level (calls c)
          @ take (instart (crypto c1 space) - ?base) D"
    if "ds = ds1 @ ds2" and "deliverAll ops space ds1 c = Some c1" for ds1 ds2 c1
    using part [OF that] by simp
  have eng: "\<exists>c2 t xs. handleCrypto ops now space off b c1 = Some (None, c2)
             \<and> deliverAll ops space (ds1 @ [(now, off, b)]) c = Some c2
             \<and> tls c2 = engineRun ops xs t
             \<and> (if instart (crypto c2 space) = instart (crypto c1 space) then t = tls c1
                 else HandleData ops level
                        (take (instart (crypto c2 space) - instart (crypto c1 space))
                           (drop (instart (crypto c1 space) - ?base) D))
                        (tls c1) = (None, t))"
    if split: "ds = ds1 @ (now, off, b) # ds2" and d1: "deliverAll ops space ds1 c = Some c1"
    for ds1 now off b ds2 c1
  proof -
    from part [OF split d1] have inv1: "inboundOf D ?base (crypto c1 space)" by simp
    from run split d1 have "deliverAll ops space ((now, off, b) # ds2) c1 = Some c'"
      by (simp add: deliverAll_append)
    then obtain c2 where h: "handleCrypto ops now space off b c1 = Some (None, c2)"
      by (auto split: option.splits prod.splits)
    with d1 have d2: "deliverAll ops space (ds1 @ [(now, off, b)]) c = Some c2"
      by (simp add: deliverAll_append)
    from slices split have sl: "?base \<le> off" "off + length b \<le> ?base + length D"
      "b = take (length b) (drop (off - ?base) D)"
      by auto
    from handleCrypto_engine [OF lv inv1 sl h] h d2 show ?thesis by blast
  qed
  from fed zeq pre eng show ?thesis by blast
qed

theorem inbound_delivery_in_order_witness:
  "\<exists>c'. deliverAll recordingOps handshakeSpace
          [(1, 0, [10, 11]), (2, 4, [14, 15]), (3, 1, [11, 12, 13])]
          (recordingConn clientSide False ([], [], 0)) = Some c'
     \<and> fedBytes QUICEncryptionLevelHandshake (calls c') = [10, 11, 12, 13, 14, 15]
     \<and> calls c' = [HandleDataCall QUICEncryptionLevelHandshake [10, 11],
          HandleDataCall QUICEncryptionLevelHandshake [12, 13, 14, 15]]
     \<and> tls c' = ([], [10, 11, 12, 13, 14, 15], 0)
     \<and> instart (crypto c' handshakeSpace) = 6"
proof -
  let ?ds = "[(1, 0, [10, 11]), (2, 4, [14, 15]), (3, 1, [11, 12, 13])]
      :: (time \<times> nat \<times> bytes) list"
  let ?c = "recordingConn clientSide False ([], [], 0)"
  let ?D = "[10, 11, 12, 13, 14, 15] :: bytes"
  have ev: "map_option (\<lambda>c. (calls c, tls c)) (deliverAll recordingOps handshakeSpace ?ds ?c)
      = Some ([HandleDataCall QUICEncryptionLevelHandshake [10, 11],
          HandleDataCall QUICEncryptionLevelHandshake [12, 13, 14, 15]],
          ([], [10, 11, 12, 13, 14, 15], 0))"
    by (simp add: run_defs eval_nat_numeral Let_def)
  then obtain c' where run: "deliverAll recordingOps handshakeSpace ?ds ?c = Some c'"
    and cs: "calls c' = [HandleDataCall QUICEncryptionLevelHandshake [10, 11],
          HandleDataCall QUICEncryptionLevelHandshake [12, 13, 14, 15]]"
    and en: "tls c' = ([], [10, 11, 12, 13, 14, 15], 0)"
    by auto
  have lv: "levelForSpace handshakeSpace = Inr QUICEncryptionLevelHandshake"
    by (simp add: levelForSpace_def space_defs)
  have st: "instart (crypto ?c handshakeSpace) = 0" "inbuf (crypto ?c handshakeSpace) = []"
    "calls ?c = []"
    by (simp_all add: recordingConn_def emptyStream_def)
  have fresh: "\<forall>i. instart (crypto ?c handshakeSpace) \<le> i \<longrightarrow>
      stored (inbuf (crypto ?c handshakeSpace)) i = None"
    by (simp add: st stored_def)
  have slices: "\<forall>(now, off, b) \<in> set ?ds.
        instart (crypto ?c handshakeSpace) \<le> off
        \<and> off + length b \<le> instart (crypto ?c handshakeSpace) + length ?D
        \<and> b = take (length b) (drop (off - instart (crypto ?c handshakeSpace)) ?D)"
    by (simp add: st)
  have cover: "\<forall>i < length ?D. \<exists>(now, off, b) \<in> set ?ds.
        off \<le> instart (crypto ?c handshakeSpace) + i
        \<and> instart (crypto ?c handshakeSpace) + i < off + length b"
    by (auto simp: st)
  from inbound_delivery_in_order [OF lv fresh slices cover run] st cs en run
  show ?thesis by simp
qed

subsection \<open>The scenarios of the spec, on the scripted engine\<close>

text \<open>
  A server with session tickets enabled drains a write secret and data for the Handshake
  level, both secrets of the Application level and \<^verbatim>\<open>QUICHandshakeDone\<close>: the keys are in
  their slots, the data is in the outbound stream of the handshake space, the handshake
  is confirmed at the time of the call, one session ticket is sent, and the loop returns
  \<^verbatim>\<open>nil\<close>.
\<close>

lemma server_handshake_scenario:
  "handleTLSEvents scriptOps 7 (scriptConn serverSide False
      [event QUICSetWriteSecret QUICEncryptionLevelHandshake [1],
       event QUICWriteData QUICEncryptionLevelHandshake [20, 21],
       event QUICSetReadSecret QUICEncryptionLevelApplication [2],
       event QUICSetWriteSecret QUICEncryptionLevelApplication [3],
       event QUICHandshakeDone 0 [],
       noEvent])
   = Some (None, (scriptConn serverSide False [])
       \<lparr>wkeys := (wkeys (scriptConn serverSide False []))
          (handshakeSpace := (0x1301, [1]), appDataSpace := (0x1301, [3])),
        rkeys := (rkeys (scriptConn serverSide False []))(appDataSpace := (0x1301, [2])),
        crypto := (crypto (scriptConn serverSide False []))
          (handshakeSpace := emptyStream\<lparr>out := [20, 21]\<rparr>),
        handshakeConfirmed := Some 7,
        calls := [SendSessionTicketCall False]\<rparr>)"
  by (simp add: handleTLSEvents.simps iteration_def nextEvent_def handleTLSEvent_def tlsKey_def
      spaceForLevel_def cryptoStream_write_def confirmHandshake_def sendSessionTicket_def
      script_defs kind_defs level_defs space_defs)

text \<open>
  Bytes 0 to 9 are delivered, then bytes 5 to 14 with the same bytes 5 to 9: the engine
  gets bytes 0 to 9, then bytes 10 to 14. A delivery that differs from a stored byte is
  refused.
\<close>

lemma overlapping_delivery_scenario:
  "map_option (\<lambda>c. calls c)
     (deliverAll scriptOps initialSpace
        [(1, 0, [0, 1, 2, 3, 4, 5, 6, 7, 8, 9]), (2, 5, [5, 6, 7, 8, 9, 10, 11, 12, 13, 14])]
        (scriptConn clientSide False []))
   = Some [HandleDataCall QUICEncryptionLevelInitial [0, 1, 2, 3, 4, 5, 6, 7, 8, 9],
           HandleDataCall QUICEncryptionLevelInitial [10, 11, 12, 13, 14]]"
  by (simp add: handleCrypto_def levelForSpace_def cryptoStream_handleCrypto_def
      insertAt_def contiguous_def stored_def handleData_def handleTLSEvents.simps
      iteration_def nextEvent_def handleTLSEvent_def script_defs kind_defs level_defs
      space_defs eval_nat_numeral Let_def)

lemma conflicting_delivery_scenario:
  "handleCrypto scriptOps 3 initialSpace 1 [1, 99]
     ((scriptConn clientSide False [])
        \<lparr>crypto := (crypto (scriptConn clientSide False []))
           (initialSpace := emptyStream\<lparr>inbuf := [Some 0, Some 1, Some 2], instart := 3\<rparr>)\<rparr>)
   = Some (Some ErrCryptoConflict, (scriptConn clientSide False [])
        \<lparr>crypto := (crypto (scriptConn clientSide False []))
           (initialSpace := emptyStream\<lparr>inbuf := [Some 0, Some 1, Some 2], instart := 3\<rparr>)\<rparr>)"
  by (simp add: handleCrypto_def levelForSpace_def cryptoStream_handleCrypto_def stored_def
      script_defs space_defs)

end
